theory Spec2Isabelle
  imports Main "HOL-Library.Word"
begin

unbundle bit_operations_syntax

section \<open>The circular packet buffer of \<^verbatim>\<open>circular_buffer/paging_buffer.go\<close>\<close>

text \<open>
  The Go type \<^verbatim>\<open>Buffer\<close> is a record. Go's \<^verbatim>\<open>int\<close> fields are modelled as
  unbounded \<open>int\<close>: on the calls a caller can make, every value the code computes is
  bounded by a small multiple of the length of the backing array, which is far below
  \<open>2^63\<close> for any array that fits in memory, so no operation wraps around there (the
  wrap-around of \<^verbatim>\<open>available\<close> on other arguments is \<open>available_int64\<close> below). The mutex is the flag \<open>locked\<close>:
  \<^verbatim>\<open>Lock\<close> on a held mutex never returns (result \<open>Blocks\<close>), \<^verbatim>\<open>Unlock\<close> clears
  the flag. A run-time panic (index or slice bounds out of range) is the result
  \<open>Panics\<close>.
\<close>

type_synonym byte = "8 word"

record Buffer =
  locked :: bool
  data :: "byte list"
  head :: int
  tail :: int
  count :: int

datatype error = ErrPacketTooBig | ErrorString string

datatype 'a result = Returns 'a | Panics | Blocks

abbreviation len :: "'a list \<Rightarrow> int" where
  "len xs \<equiv> int (length xs)"

definition minSize :: int where
  "minSize = 2048"

definition cutoffSize :: int where
  "cutoffSize = 128 * 1024"

definition NewBuffer :: Buffer where
  "NewBuffer = \<lparr>locked = False, data = [], head = 0, tail = 0, count = 0\<rparr>"

subsection \<open>Go's slice expressions and \<^verbatim>\<open>copy\<close>\<close>

text \<open>
  \<open>subslice s lo hi\<close> is the Go expression \<^verbatim>\<open>s[lo:hi]\<close>, which panics unless
  \<open>0 \<le> lo \<le> hi \<le> cap s\<close>; every slice the code takes bounds of has capacity equal to
  its length. \<^verbatim>\<open>copy(dst[off:], src)\<close> copies \<open>copy_n dst off src\<close> bytes, the
  minimum of the two lengths, and leaves the array behind \<open>dst\<close> as \<open>copy_to dst off src\<close>.
\<close>

definition subslice :: "'a list \<Rightarrow> int \<Rightarrow> int \<Rightarrow> 'a list option" where
  "subslice s lo hi =
     (if 0 \<le> lo \<and> lo \<le> hi \<and> hi \<le> len s
      then Some (take (nat (hi - lo)) (drop (nat lo) s)) else None)"

definition copy_n :: "'a list \<Rightarrow> nat \<Rightarrow> 'a list \<Rightarrow> nat" where
  "copy_n dst off src = min (length dst - off) (length src)"

definition copy_to :: "'a list \<Rightarrow> nat \<Rightarrow> 'a list \<Rightarrow> 'a list" where
  "copy_to dst off src =
     take off dst @ take (length dst - off) src @ drop (off + length src) dst"

subsection \<open>\<^verbatim>\<open>available\<close>, \<^verbatim>\<open>grow\<close> and \<^verbatim>\<open>size\<close>\<close>

definition available :: "Buffer \<Rightarrow> int \<Rightarrow> bool" where
  "available b sz =
     (let avail = head b - tail b;
          avail = (if avail \<le> 0 then avail + len (data b) else avail)
      in if sz + 2 + 1 > avail then False else True)"

text \<open>
  Go's \<^verbatim>\<open>int\<close> is a machine integer, 64 bits wide on the usual platforms: \<open>int64 i\<close> is
  the value such a variable holds after an operation whose exact result is \<open>i\<close>.
  \<open>available_int64\<close> is \<^verbatim>\<open>available\<close> (lines 41-52) with the wrap-around of each
  subtraction and addition written out. The size is the one operand of the code that the
  array does not bound; \<open>available_int64\<close> and \<open>available\<close> agree whenever nothing
  wraps, in particular on every call \<^verbatim>\<open>Write\<close> makes, where the size is below 65536 and
  the cursors are inside the array.
\<close>

definition int64 :: "int \<Rightarrow> int" where
  "int64 i = (i + 2 ^ 63) mod 2 ^ 64 - 2 ^ 63"

definition available_int64 :: "Buffer \<Rightarrow> int \<Rightarrow> bool" where
  "available_int64 b sz =
     (let avail = int64 (head b - tail b);
          avail = (if avail \<le> 0 then int64 (avail + len (data b)) else avail)
      in if int64 (int64 (sz + 2) + 1) > avail then False else True)"

definition grow :: "Buffer \<Rightarrow> (Buffer \<times> error option) result" where
  "grow b =
     (let newsize = (if len (data b) < cutoffSize then 2 * len (data b)
                     else 5 * len (data b) div 4);
          newsize = (if newsize < minSize then minSize else newsize);
          newdata = replicate (nat newsize) (0 :: byte)
      in if head b \<le> tail b then
           (case subslice (data b) (head b) (tail b) of
              None \<Rightarrow> Panics
            | Some src \<Rightarrow>
                let n = copy_n newdata 0 src;
                    newdata = copy_to newdata 0 src
                in Returns (b\<lparr>head := 0, tail := int n, data := newdata\<rparr>, None))
         else
           (case subslice (data b) (head b) (len (data b)) of
              None \<Rightarrow> Panics
            | Some src1 \<Rightarrow>
                let n = copy_n newdata 0 src1;
                    newdata = copy_to newdata 0 src1
                in (case subslice (data b) 0 (tail b) of
                      None \<Rightarrow> Panics
                    | Some src2 \<Rightarrow>
                        let n' = n + copy_n newdata n src2;
                            newdata = copy_to newdata n src2
                        in Returns (b\<lparr>head := 0, tail := int n', data := newdata\<rparr>, None))))"

definition size_buf :: "Buffer \<Rightarrow> int" where
  "size_buf b =
     (let sz = tail b - head b in if sz < 0 then sz + len (data b) else sz)"

subsection \<open>\<^verbatim>\<open>Write\<close>\<close>

text \<open>
  The loop \<^verbatim>\<open>for !b.available(len(packet)) { err := b.grow(); ... }\<close> of \<^verbatim>\<open>Write\<close>.
  It is total: after one growth step the live bytes start at offset 0 and every further
  step keeps \<open>tail\<close> and enlarges the array.
\<close>

definition normalised :: "Buffer \<Rightarrow> bool" where
  "normalised b \<longleftrightarrow> head b = 0 \<and> 0 \<le> tail b \<and> tail b \<le> len (data b)"

function grow_loop :: "Buffer \<Rightarrow> int \<Rightarrow> (Buffer \<times> error option) result" where
  "grow_loop b sz =
     (if \<not> available b sz then
        (case grow b of
           Returns (b', None) \<Rightarrow> grow_loop b' sz
         | Returns (b', Some err) \<Rightarrow> Returns (b', Some err)
         | Panics \<Rightarrow> Panics
         | Blocks \<Rightarrow> Blocks)
      else Returns (b, None))"
  by pat_completeness auto

text \<open>
  \<open>put_byte\<close> is one of the two byte stores of \<^verbatim>\<open>Write\<close> (lines 105-109 and 110-114):
  \<^verbatim>\<open>b.data[b.tail] = v; b.tail++; if b.tail >= len(b.data) { b.tail = 0 }\<close>.
\<close>

definition put_byte :: "Buffer \<Rightarrow> byte \<Rightarrow> Buffer option" where
  "put_byte b v =
     (if 0 \<le> tail b \<and> tail b < len (data b) then
        let b = b\<lparr>data := (data b)[nat (tail b) := v]\<rparr>;
            b = b\<lparr>tail := tail b + 1\<rparr>
        in Some (if tail b \<ge> len (data b) then b\<lparr>tail := 0\<rparr> else b)
      else None)"

text \<open>The packet store of \<^verbatim>\<open>Write\<close> (lines 117-124).\<close>

definition put_packet :: "Buffer \<Rightarrow> byte list \<Rightarrow> Buffer option" where
  "put_packet b packet =
     (case subslice (data b) (tail b) (len (data b)) of
        None \<Rightarrow> None
      | Some _ \<Rightarrow>
          let n = copy_n (data b) (nat (tail b)) packet;
              b = b\<lparr>data := copy_to (data b) (nat (tail b)) packet\<rparr>;
              b = b\<lparr>tail := tail b + int n\<rparr>;
              b = (if tail b \<ge> len (data b) then
                     let m = copy_n (data b) 0 (drop n packet)
                     in b\<lparr>data := copy_to (data b) 0 (drop n packet), tail := int m\<rparr>
                   else b)
          in Some (b\<lparr>count := count b + 1\<rparr>))"

definition Write :: "Buffer \<Rightarrow> byte list \<Rightarrow> (Buffer \<times> int \<times> error option) result" where
  "Write b packet =
     (if len packet \<ge> 0x10000 then Returns (b, 0, Some ErrPacketTooBig)
      else if locked b then Blocks
      else
        (case grow_loop (b\<lparr>locked := True\<rparr>) (len packet) of
           Panics \<Rightarrow> Panics
         | Blocks \<Rightarrow> Blocks
         | Returns (b, Some err) \<Rightarrow> Returns (b\<lparr>locked := False\<rparr>, 0, Some err)
         | Returns (b, None) \<Rightarrow>
             (case put_byte b (word_of_int (drop_bit 8 (len packet))) of
                None \<Rightarrow> Panics
              | Some b \<Rightarrow>
                  (case put_byte b (word_of_int (len packet)) of
                     None \<Rightarrow> Panics
                   | Some b \<Rightarrow>
                       (case put_packet b packet of
                          None \<Rightarrow> Panics
                        | Some b \<Rightarrow> Returns (b\<lparr>locked := False\<rparr>, len packet, None))))))"

subsection \<open>\<^verbatim>\<open>Read\<close>\<close>

text \<open>\<^verbatim>\<open>fmt.Sprintf("%d", i)\<close>: the decimal digits of an integer.\<close>

fun digits :: "nat \<Rightarrow> string" where
  "digits n =
     (if n < 10 then [''0123456789'' ! n]
      else digits (n div 10) @ [''0123456789'' ! (n mod 10)])"

definition fmt_d :: "int \<Rightarrow> string" where
  "fmt_d i = (if i < 0 then CHR ''-'' # digits (nat (- i)) else digits (nat i))"

text \<open>
  \<open>get_byte\<close> is one of the two header loads of \<^verbatim>\<open>Read\<close> (lines 138-142 and 143-147):
  \<^verbatim>\<open>n := b.data[b.head]; b.head++; if b.head >= len(b.data) { b.head = 0 }\<close>.
\<close>

definition get_byte :: "Buffer \<Rightarrow> (byte \<times> Buffer) option" where
  "get_byte b =
     (if 0 \<le> head b \<and> head b < len (data b) then
        let n = data b ! nat (head b);
            b = b\<lparr>head := head b + 1\<rparr>
        in Some (n, if head b \<ge> len (data b) then b\<lparr>head := 0\<rparr> else b)
      else None)"

text \<open>The two copies of \<^verbatim>\<open>Read\<close> (lines 158-163); the result is the destination.\<close>

definition get_packet :: "Buffer \<Rightarrow> byte list \<Rightarrow> int \<Rightarrow> byte list option" where
  "get_packet b packet copied =
     (if head b + copied < len (data b) then
        (case subslice (data b) (head b) (head b + copied) of
           None \<Rightarrow> None
         | Some src \<Rightarrow> Some (copy_to packet 0 src))
      else
        (case subslice (data b) (head b) (len (data b)) of
           None \<Rightarrow> None
         | Some src1 \<Rightarrow>
             let k = copy_n packet 0 src1;
                 packet = copy_to packet 0 src1
             in (case subslice (data b) 0 (copied - int k) of
                   None \<Rightarrow> None
                 | Some src2 \<Rightarrow> Some (copy_to packet k src2))))"

text \<open>
  Advancing \<open>head\<close> past the packet (lines 165-176): wrap around at the end of the
  array, and reset both cursors when the buffer has become empty.
\<close>

definition advance_head :: "Buffer \<Rightarrow> int \<Rightarrow> Buffer" where
  "advance_head b cnt =
     (let b = b\<lparr>head := head b + cnt\<rparr>;
          b = (if head b \<ge> len (data b) then b\<lparr>head := head b - len (data b)\<rparr> else b)
      in if head b = tail b then b\<lparr>head := 0, tail := 0\<rparr> else b)"

definition Read :: "Buffer \<Rightarrow> byte list \<Rightarrow> (Buffer \<times> byte list \<times> int \<times> error option) result" where
  "Read b packet =
     (if locked b then Blocks
      else
        let b = b\<lparr>locked := True\<rparr> in
        if head b \<noteq> tail b then
          (case get_byte b of
             None \<Rightarrow> Panics
           | Some (n1, b) \<Rightarrow>
               (case get_byte b of
                  None \<Rightarrow> Panics
                | Some (n2, b) \<Rightarrow>
                    let cnt = uint (push_bit 8 (ucast n1 :: 16 word) OR (ucast n2 :: 16 word));
                        copied = cnt
                    in if len packet < copied then
                         Returns (b, packet, 0,
                           Some (ErrorString (''short buffer, at least '' @ fmt_d cnt @ '' is needed'')))
                       else
                         (case get_packet b packet copied of
                            None \<Rightarrow> Panics
                          | Some packet \<Rightarrow>
                              let b = advance_head b cnt;
                                  b = b\<lparr>count := count b - 1\<rparr>
                              in Returns (b\<lparr>locked := False\<rparr>, packet, copied, None))))
        else Returns (b\<lparr>locked := False\<rparr>, packet, 0, None))"

subsection \<open>\<^verbatim>\<open>Count\<close> and \<^verbatim>\<open>Size\<close>\<close>

definition Count :: "Buffer \<Rightarrow> (Buffer \<times> int) result" where
  "Count b =
     (if locked b then Blocks
      else let b = b\<lparr>locked := True\<rparr>; r = count b
           in Returns (b\<lparr>locked := False\<rparr>, r))"

definition Size :: "Buffer \<Rightarrow> (Buffer \<times> int) result" where
  "Size b =
     (if locked b then Blocks
      else let b = b\<lparr>locked := True\<rparr>; r = size_buf b
           in Returns (b\<lparr>locked := False\<rparr>, r))"

subsection \<open>Sequences of calls\<close>

text \<open>
  A caller's session: \<open>CallBuf dst\<close> makes \<open>dst\<close> the caller's destination slice
  (as \<^verbatim>\<open>packet := make([]byte, 4)\<close> does), \<open>CallRead\<close> reads into the current
  destination and leaves it as \<^verbatim>\<open>Read\<close> filled it. The replies are what the caller
  sees; a call that panics or never returns ends the session.
\<close>

datatype call = CallBuf "byte list" | CallWrite "byte list" | CallRead | CallCount | CallSize

datatype reply =
    WriteReply int "error option"
  | ReadReply int "error option" "byte list"
  | IntReply int
  | Panicked
  | Blocked

fun calls :: "Buffer \<Rightarrow> byte list \<Rightarrow> call list \<Rightarrow> reply list" where
  "calls b buf [] = []"
| "calls b buf (CallBuf dst # cs) = calls b dst cs"
| "calls b buf (CallWrite p # cs) =
     (case Write b p of
        Returns (b', n, e) \<Rightarrow> WriteReply n e # calls b' buf cs
      | Panics \<Rightarrow> [Panicked]
      | Blocks \<Rightarrow> [Blocked])"
| "calls b buf (CallRead # cs) =
     (case Read b buf of
        Returns (b', buf', n, e) \<Rightarrow> ReadReply n e buf' # calls b' buf' cs
      | Panics \<Rightarrow> [Panicked]
      | Blocks \<Rightarrow> [Blocked])"
| "calls b buf (CallCount # cs) =
     (case Count b of
        Returns (b', n) \<Rightarrow> IntReply n # calls b' buf cs
      | Panics \<Rightarrow> [Panicked]
      | Blocks \<Rightarrow> [Blocked])"
| "calls b buf (CallSize # cs) =
     (case Size b of
        Returns (b', n) \<Rightarrow> IntReply n # calls b' buf cs
      | Panics \<Rightarrow> [Panicked]
      | Blocks \<Rightarrow> [Blocked])"

text \<open>The states a caller can bring a fresh Buffer into through \<^verbatim>\<open>Write\<close> and \<^verbatim>\<open>Read\<close>.\<close>

inductive reachable :: "Buffer \<Rightarrow> bool" where
  fresh: "reachable NewBuffer"
| after_Write: "reachable b \<Longrightarrow> Write b p = Returns (b', n, e) \<Longrightarrow> reachable b'"
| after_Read: "reachable b \<Longrightarrow> Read b dst = Returns (b', dst', n, e) \<Longrightarrow> reachable b'"

section \<open>The queue a Buffer represents\<close>

text \<open>
  The comment on the fields of \<^verbatim>\<open>Buffer\<close>: if \<open>head \<le> tail\<close> the useful data is the
  interval from \<open>head\<close> to \<open>tail\<close>; if \<open>tail < head\<close> it is the part from \<open>head\<close> to
  the end followed by the part from 0 to \<open>tail\<close>.
\<close>

definition ring_live :: "'a list \<Rightarrow> nat \<Rightarrow> nat \<Rightarrow> 'a list" where
  "ring_live d h t = (if h \<le> t then take (t - h) (drop h d) else drop h d @ take t d)"

definition live :: "Buffer \<Rightarrow> byte list" where
  "live b = ring_live (data b) (nat (head b)) (nat (tail b))"

text \<open>Both cursors are inside the array, or the array is still empty.\<close>

definition indices_ok :: "Buffer \<Rightarrow> bool" where
  "indices_ok b \<longleftrightarrow>
     (data b = [] \<and> head b = 0 \<and> tail b = 0) \<or>
     (0 \<le> head b \<and> head b < len (data b) \<and> 0 \<le> tail b \<and> tail b < len (data b))"

text \<open>A record as \<^verbatim>\<open>Write\<close> lays it out: two length bytes, high byte first, then the payload.\<close>

definition frame :: "byte list \<Rightarrow> byte list" where
  "frame p = word_of_int (drop_bit 8 (len p)) # word_of_int (len p) # p"

text \<open>
  \<open>holds b ps\<close>: the live bytes of \<open>b\<close> are the records of the packets \<open>ps\<close>, oldest
  first, and \<open>count\<close> is their number. \<open>queue_inv\<close> adds that the mutex is free, which
  is the case between calls.
\<close>

definition holds :: "Buffer \<Rightarrow> byte list list \<Rightarrow> bool" where
  "holds b ps \<longleftrightarrow>
     indices_ok b \<and> live b = concat (map frame ps) \<and>
     list_all (\<lambda>p. length p < 65536) ps \<and> count b = len ps"

definition queue_inv :: "Buffer \<Rightarrow> byte list list \<Rightarrow> bool" where
  "queue_inv b ps \<longleftrightarrow> \<not> locked b \<and> holds b ps"

text \<open>The size \<^verbatim>\<open>grow\<close> chooses for the new array (lines 57-65).\<close>

definition new_cap :: "int \<Rightarrow> int" where
  "new_cap c = max minSize (if c < cutoffSize then 2 * c else 5 * c div 4)"

text \<open>
  What the stores of \<^verbatim>\<open>Write\<close> do to the array, read as a ring: \<open>ring_put d t p\<close>
  is \<open>d\<close> with \<open>p\<close> written from index \<open>t\<close> on, continuing at index 0 when the end
  is reached, and \<open>ring_next c i n\<close> is the index \<open>n\<close> places after \<open>i\<close> in a ring of
  \<open>c\<close> places.
\<close>

definition ring_put :: "'a list \<Rightarrow> nat \<Rightarrow> 'a list \<Rightarrow> 'a list" where
  "ring_put d t p =
     (if t + length p < length d then copy_to d t p
      else copy_to (copy_to d t p) 0 (drop (length d - t) p))"

definition ring_next :: "nat \<Rightarrow> nat \<Rightarrow> nat \<Rightarrow> nat" where
  "ring_next c i n = (if i + n < c then i + n else i + n - c)"

text \<open>
  The packets queued after a sequence of calls, in the words of the specification: a
  \<^verbatim>\<open>Write\<close> of a packet shorter than 65536 bytes appends it, a \<^verbatim>\<open>Read\<close> that succeeds
  removes the oldest one (and finds nothing to remove when the queue is empty).
\<close>

fun queued :: "byte list list \<Rightarrow> call list \<Rightarrow> byte list list" where
  "queued q [] = q"
| "queued q (CallWrite p # cs) = queued (if length p < 65536 then q @ [p] else q) cs"
| "queued q (CallRead # cs) = queued (tl q) cs"
| "queued q (CallBuf dst # cs) = queued q cs"
| "queued q (CallCount # cs) = queued q cs"
| "queued q (CallSize # cs) = queued q cs"

text \<open>A reply other than that of a \<^verbatim>\<open>Read\<close> which returned an error.\<close>

fun read_succeeded :: "reply \<Rightarrow> bool" where
  "read_succeeded (ReadReply n e buf) = (e = None)"
| "read_succeeded r = True"

text \<open>
  A Buffer in the middle of \<^verbatim>\<open>Write\<close> (mutex held), with one packet of 2043 zero bytes
  queued in an array of 2048 bytes: the record takes bytes 0 to 2044.
\<close>

definition nearly_full :: Buffer where
  "nearly_full =
     \<lparr>locked = True, data = 7 # 251 # replicate 2046 0, head = 0, tail = 2045, count = 1\<rparr>"

text \<open>A fresh Buffer after \<^verbatim>\<open>Write([]byte{1, 2, 3})\<close>: one record of 5 bytes in 2048.\<close>

definition one_packet :: Buffer where
  "one_packet =
     \<lparr>locked = False, data = 0 # 3 # 1 # 2 # 3 # replicate 2043 0, head = 0, tail = 5, count = 1\<rparr>"

section \<open>Auxiliary lemmas\<close>

subsection \<open>Lists read as rings\<close>

lemma length_copy_to [simp]: "off \<le> length dst \<Longrightarrow> length (copy_to dst off src) = length dst"
  by (simp add: copy_to_def)

lemma length_ring_live:
  "h \<le> length d \<Longrightarrow> t \<le> length d \<Longrightarrow>
   length (ring_live d h t) = (if h \<le> t then t - h else length d - h + t)"
  by (simp add: ring_live_def)

lemma ring_append_flat:
  assumes "h < length d" "t < length d" "t + length p < length d"
    and "length (ring_live d h t) + length p < length d"
  shows "ring_live (copy_to d t p) h (t + length p) = ring_live d h t @ p"
proof (cases "h \<le> t")
  case True
  then show ?thesis using assms
    by (simp add: ring_live_def copy_to_def drop_take)
next
  case False
  with assms have "t + length p < h" by (simp add: ring_live_def)
  with False show ?thesis using assms
    by (simp add: ring_live_def copy_to_def)
qed

lemma ring_append_wrap:
  assumes "h < length d" "t < length d" "length d \<le> t + length p"
    and "length (ring_live d h t) + length p < length d"
  shows "ring_live (copy_to (copy_to d t p) 0 (drop (length d - t) p)) h (t + length p - length d)
         = ring_live d h t @ p"
proof -
  have ht: "h \<le> t" using assms by (cases "h \<le> t") (simp_all add: ring_live_def)
  have lt: "t + length p - length d < h" using assms ht by (simp add: ring_live_def)
  have "take (length d - t) p @ drop (length d - t) p = p" by simp
  show ?thesis using assms ht lt
    by (simp add: ring_live_def copy_to_def drop_take)
qed

lemma ring_advance:
  assumes "h < length d" "t < length d" "n \<le> length (ring_live d h t)"
  shows "ring_live d (if length d \<le> h + n then h + n - length d else h + n) t
         = drop n (ring_live d h t)"
proof (cases "h \<le> t")
  case True
  with assms have "n \<le> t - h" by (simp add: ring_live_def)
  with True assms show ?thesis by (auto simp add: ring_live_def drop_take ac_simps)
next
  case False
  then show ?thesis using assms by (auto simp add: ring_live_def drop_take ac_simps)
qed

lemma ring_peek:
  assumes "h < length d" "t < length d" "n \<le> length (ring_live d h t)"
  shows "take n (ring_live d h t)
         = (if h + n < length d then take n (drop h d)
            else drop h d @ take (n - (length d - h)) d)"
proof (cases "h \<le> t")
  case True
  with assms have "n \<le> t - h" by (simp add: ring_live_def)
  with True assms show ?thesis by (auto simp add: ring_live_def min_def)
next
  case False
  then show ?thesis using assms by (auto simp add: ring_live_def min_def)
qed


subsection \<open>The live bytes of a Buffer\<close>

lemma indices_okE:
  assumes "indices_ok b"
  obtains "data b = []" "head b = 0" "tail b = 0"
  | h t where "head b = int h" "tail b = int t" "h < length (data b)" "t < length (data b)"
proof -
  from assms consider "data b = [] \<and> head b = 0 \<and> tail b = 0"
    | "0 \<le> head b \<and> head b < len (data b) \<and> 0 \<le> tail b \<and> tail b < len (data b)"
    by (auto simp: indices_ok_def)
  then show thesis
  proof cases
    case 1
    then show ?thesis using that(1) by simp
  next
    case 2
    then have "head b = int (nat (head b))" "tail b = int (nat (tail b))"
      "nat (head b) < length (data b)" "nat (tail b) < length (data b)"
      by linarith+
    then show ?thesis using that(2) by blast
  qed
qed

lemma len_live: "indices_ok b \<Longrightarrow> len (live b) = size_buf b"
  by (erule indices_okE) (auto simp: live_def size_buf_def ring_live_def Let_def)

lemma size_buf_bounds:
  "indices_ok b \<Longrightarrow> 0 \<le> size_buf b \<and> size_buf b \<le> len (data b) \<and> (data b \<noteq> [] \<longrightarrow> size_buf b < len (data b))"
  by (erule indices_okE) (auto simp: size_buf_def Let_def)

lemma available_iff:
  "indices_ok b \<Longrightarrow> available b sz \<longleftrightarrow> size_buf b + sz + 3 \<le> len (data b)"
  by (erule indices_okE) (auto simp: available_def size_buf_def Let_def)

lemma live_empty_iff: "indices_ok b \<Longrightarrow> live b = [] \<longleftrightarrow> head b = tail b"
  by (erule indices_okE) (auto simp: live_def ring_live_def)

subsection \<open>Growth\<close>

lemma new_cap_gt: "0 \<le> c \<Longrightarrow> c < new_cap c"
  unfolding new_cap_def minSize_def cutoffSize_def by (cases "c < 128 * 1024") simp_all

lemma new_cap_min: "2048 \<le> new_cap c"
  by (simp add: new_cap_def minSize_def)

lemma grow_newsize:
  "(if (if c < cutoffSize then 2 * c else 5 * c div 4) < minSize then minSize
    else (if c < cutoffSize then 2 * c else 5 * c div 4)) = new_cap c"
  by (simp add: new_cap_def max_def)

lemma copy_to_fresh:
  "length src \<le> n \<Longrightarrow> copy_to (replicate n x) 0 src = src @ replicate (n - length src) x"
  by (simp add: copy_to_def)

lemma copy_to_fresh2:
  "length s1 + length s2 \<le> n \<Longrightarrow>
   copy_to (s1 @ replicate (n - length s1) x) (length s1) s2
   = s1 @ s2 @ replicate (n - (length s1 + length s2)) x"
  by (simp add: copy_to_def)

lemma copy_n_fresh: "length src \<le> n \<Longrightarrow> copy_n (replicate n x) 0 src = length src"
  by (simp add: copy_n_def)

lemma copy_n_fresh2:
  "length s1 + length s2 \<le> n \<Longrightarrow>
   copy_n (s1 @ replicate (n - length s1) x) (length s1) s2 = length s2"
  by (simp add: copy_n_def)

lemma grow_eq:
  "grow b =
     (if 0 \<le> head b \<and> head b \<le> len (data b) \<and> 0 \<le> tail b \<and> tail b \<le> len (data b)
      then Returns (b\<lparr>head := 0, tail := size_buf b,
             data := live b @ replicate (nat (new_cap (len (data b)) - size_buf b)) 0\<rparr>, None)
      else Panics)"
proof -
  let ?c = "len (data b)"
  let ?N = "nat (new_cap ?c)"
  have gt: "?c < new_cap ?c" by (rule new_cap_gt) simp
  show ?thesis
  proof (cases "head b \<le> tail b")
    case True
    show ?thesis
    proof (cases "0 \<le> head b \<and> tail b \<le> ?c")
      case ok: True
      let ?src = "take (nat (tail b - head b)) (drop (nat (head b)) (data b))"
      have sl: "subslice (data b) (head b) (tail b) = Some ?src"
        using True ok by (simp add: subslice_def)
      have l: "length ?src = nat (tail b - head b)" using True ok by (simp add: min_def) linarith
      have le: "length ?src \<le> ?N" using True ok gt l by linarith
      have lv: "live b = ?src" using True ok
        by (simp add: live_def ring_live_def nat_diff_distrib nat_le_eq_zle)
      have sz: "size_buf b = tail b - head b" using True by (simp add: size_buf_def)
      have n: "int (copy_n (replicate ?N (0::byte)) 0 ?src) = tail b - head b"
        unfolding copy_n_fresh[OF le] l using True by simp
      have k: "?N - length ?src = nat (new_cap ?c - size_buf b)"
        unfolding l sz using True ok gt by linarith
      have d: "copy_to (replicate ?N (0::byte)) 0 ?src
               = live b @ replicate (nat (new_cap ?c - size_buf b)) 0"
        unfolding copy_to_fresh[OF le] k lv ..
      have "grow b = Returns (b\<lparr>head := 0, tail := int (copy_n (replicate ?N (0::byte)) 0 ?src),
               data := copy_to (replicate ?N 0) 0 ?src\<rparr>, None)"
        unfolding grow_def Let_def grow_newsize using True by (simp add: sl)
      then have "grow b = Returns (b\<lparr>head := 0, tail := size_buf b,
             data := live b @ replicate (nat (new_cap ?c - size_buf b)) 0\<rparr>, None)"
        unfolding n d sz .
      then show ?thesis using True ok by simp
    next
      case False
      then have "subslice (data b) (head b) (tail b) = None"
        using True by (auto simp: subslice_def)
      then have "grow b = Panics"
        unfolding grow_def Let_def using True by simp
      then show ?thesis using False True by auto
    qed
  next
    case wr: False
    show ?thesis
    proof (cases "head b \<le> ?c \<and> 0 \<le> tail b")
      case ok: True
      let ?s1 = "drop (nat (head b)) (data b)"
      let ?s2 = "take (nat (tail b)) (data b)"
      have sl1: "subslice (data b) (head b) ?c = Some ?s1"
        using wr ok by (simp add: subslice_def)
      have sl2: "subslice (data b) 0 (tail b) = Some ?s2"
        using wr ok by (simp add: subslice_def)
      have l1: "length ?s1 = nat (?c - head b)" using wr ok by (simp add: nat_diff_distrib)
      have l2: "length ?s2 = nat (tail b)" using wr ok by (simp add: min_def) linarith
      have le: "length ?s1 + length ?s2 \<le> ?N" using wr ok gt l1 l2 by linarith
      have le1: "length ?s1 \<le> ?N" using le by simp
      have lv: "live b = ?s1 @ ?s2" using wr ok
        by (simp add: live_def ring_live_def nat_le_eq_zle)
      have sz: "size_buf b = tail b - head b + ?c" using wr by (simp add: size_buf_def)
      have n1: "copy_n (replicate ?N (0::byte)) 0 ?s1 = length ?s1"
        by (rule copy_n_fresh[OF le1])
      have n2: "copy_n (?s1 @ replicate (?N - length ?s1) (0::byte)) (length ?s1) ?s2 = length ?s2"
        by (rule copy_n_fresh2[OF le])
      have k: "?N - (length ?s1 + length ?s2) = nat (new_cap ?c - size_buf b)"
        unfolding l1 l2 sz using wr ok gt by linarith
      have t: "int (length ?s1 + length ?s2) = size_buf b"
        unfolding l1 l2 sz using wr ok by linarith
      have "grow b = Returns (b\<lparr>head := 0, tail := int (length ?s1 + length ?s2),
               data := ?s1 @ ?s2 @ replicate (?N - (length ?s1 + length ?s2)) 0\<rparr>, None)"
        unfolding grow_def Let_def grow_newsize if_not_P[OF wr] sl1 sl2 option.case
          n1 copy_to_fresh[OF le1] n2 copy_to_fresh2[OF le] ..
      then have "grow b = Returns (b\<lparr>head := 0, tail := size_buf b,
             data := live b @ replicate (nat (new_cap ?c - size_buf b)) 0\<rparr>, None)"
        unfolding k t lv by simp
      then show ?thesis using wr ok by simp
    next
      case False
      then have "subslice (data b) (head b) ?c = None \<or> subslice (data b) 0 (tail b) = None"
        using wr by (auto simp: subslice_def)
      then have "grow b = Panics"
        unfolding grow_def Let_def using wr by (auto split: option.splits)
      then show ?thesis using False wr by auto
    qed
  qed
qed

lemma grow_Returns:
  assumes "grow b = Returns (b', e)"
  shows "e = None" and "head b' = 0" and "tail b' = size_buf b"
    and "len (data b') = new_cap (len (data b))"
    and "0 \<le> size_buf b" and "size_buf b \<le> len (data b)"
    and "locked b' = locked b" and "count b' = count b"
    and "data b' = live b @ replicate (nat (new_cap (len (data b)) - size_buf b)) 0"
proof -
  let ?c = "len (data b)"
  have ok: "0 \<le> head b \<and> head b \<le> ?c \<and> 0 \<le> tail b \<and> tail b \<le> ?c"
    using assms by (cases "0 \<le> head b \<and> head b \<le> ?c \<and> 0 \<le> tail b \<and> tail b \<le> ?c")
      (simp_all add: grow_eq)
  then have b': "b' = b\<lparr>head := 0, tail := size_buf b,
             data := live b @ replicate (nat (new_cap ?c - size_buf b)) 0\<rparr>" and e: "e = None"
    using assms by (simp_all add: grow_eq)
  have l: "len (live b) = size_buf b" using ok
    by (auto simp: live_def length_ring_live size_buf_def Let_def)
  have s: "0 \<le> size_buf b" "size_buf b \<le> ?c" using ok
    by (auto simp: size_buf_def Let_def)
  have gt: "?c < new_cap ?c" by (rule new_cap_gt) simp
  show "e = None" by (rule e)
  show "head b' = 0" "tail b' = size_buf b" "locked b' = locked b" "count b' = count b"
    "data b' = live b @ replicate (nat (new_cap (len (data b)) - size_buf b)) 0"
    by (simp_all add: b')
  show "0 \<le> size_buf b" "size_buf b \<le> ?c" by (rule s)+
  show "len (data b') = new_cap ?c" using l s gt by (simp add: b')
qed

lemma grow_indices_ok:
  assumes "indices_ok b"
  obtains b' where "grow b = Returns (b', None)" "indices_ok b'" "live b' = live b"
    "size_buf b' = size_buf b" "len (data b') = new_cap (len (data b))"
    "head b' = 0" "tail b' = size_buf b" "count b' = count b" "locked b' = locked b"
    "take (nat (size_buf b)) (data b') = live b"
proof -
  let ?c = "len (data b)"
  let ?b' = "b\<lparr>head := 0, tail := size_buf b,
             data := live b @ replicate (nat (new_cap ?c - size_buf b)) 0\<rparr>"
  have ok: "0 \<le> head b \<and> head b \<le> ?c \<and> 0 \<le> tail b \<and> tail b \<le> ?c"
    using assms by (auto simp: indices_ok_def)
  then have g: "grow b = Returns (?b', None)" by (simp add: grow_eq)
  note r = grow_Returns[OF g]
  have l: "len (live b) = size_buf b" by (rule len_live[OF assms])
  have gt: "?c < new_cap ?c" by (rule new_cap_gt) simp
  have lv: "live ?b' = live b" using l r(5)
    by (simp add: live_def[of ?b'] ring_live_def)
  have sz: "size_buf ?b' = size_buf b" using r(5) by (simp add: size_buf_def[of ?b'] Let_def)
  have io: "indices_ok ?b'" using r(4,5,6) gt unfolding indices_ok_def[of ?b'] by simp
  have nl: "nat (size_buf b) = length (live b)" using l by linarith
  have tk: "take (nat (size_buf b)) (data ?b') = live b" unfolding nl by simp
  show thesis
    by (rule that[OF g io lv sz r(4) _ _ _ _ tk]) simp_all
qed

termination grow_loop
proof (relation "inv_image (less_than <*lex*> less_than)
     (\<lambda>(b, sz). (if normalised b then 0 else (1::nat), nat (sz + 3 + tail b - len (data b))))", goal_cases)
  case 1
  show ?case by (intro wf_inv_image wf_lex_prod wf_less_than)
next
  case (2 b sz x1 b' e)
  then have g: "grow b = Returns (b', e)" by simp
  note r = grow_Returns[OF g]
  have gt: "len (data b) < new_cap (len (data b))" by (rule new_cap_gt) simp
  have n': "normalised b'" using r gt by (simp add: normalised_def)
  show ?case
  proof (cases "normalised b")
    case True
    then have t: "tail b' = tail b" using r(3) by (simp add: normalised_def size_buf_def)
    from True 2(1) have "sz + 3 + tail b - len (data b) > 0"
      by (auto simp: normalised_def available_def Let_def split: if_splits)
    with True n' t r(4) gt show ?thesis by simp
  next
    case False
    with n' show ?thesis by simp
  qed
qed

declare grow_loop.simps [simp del]

lemma grow_loop_None: "grow_loop b sz = Returns (b', e) \<Longrightarrow> e = None"
proof (induction b sz rule: grow_loop.induct)
  case (1 b sz)
  show ?case
  proof (cases "available b sz")
    case True
    with 1(2) show ?thesis by (simp add: grow_loop.simps[of b sz])
  next
    case False
    show ?thesis
    proof (cases "grow b")
      case (Returns x)
      obtain b1 e1 where x: "x = (b1, e1)" by (cases x)
      from grow_Returns(1)[OF Returns[unfolded x]] have e1: "e1 = None" .
      from 1(2) False Returns x e1 have "grow_loop b1 sz = Returns (b', e)"
        by (simp add: grow_loop.simps[of b sz])
      with 1(1)[OF False Returns x[symmetric] e1] show ?thesis by simp
    next
      case Panics
      with 1(2) False show ?thesis by (simp add: grow_loop.simps[of b sz])
    next
      case Blocks
      with 1(2) False show ?thesis by (simp add: grow_loop.simps[of b sz])
    qed
  qed
qed

lemma grow_loop_ok:
  "indices_ok b \<Longrightarrow>
   \<exists>b'. grow_loop b sz = Returns (b', None) \<and> indices_ok b' \<and> live b' = live b \<and>
        available b' sz \<and> count b' = count b \<and> locked b' = locked b \<and>
        len (data b) \<le> len (data b')"
proof (induction b sz rule: grow_loop.induct)
  case (1 b sz)
  show ?case
  proof (cases "available b sz")
    case True
    with 1(2) show ?thesis by (simp add: grow_loop.simps[of b sz])
  next
    case False
    from 1(2) obtain b1 where g: "grow b = Returns (b1, None)" and io: "indices_ok b1"
      and lv: "live b1 = live b" and c: "count b1 = count b" and l: "locked b1 = locked b"
      and cap: "len (data b1) = new_cap (len (data b))"
      by (rule grow_indices_ok)
    have gt: "len (data b) < new_cap (len (data b))" by (rule new_cap_gt) simp
    from 1(1)[OF False g refl refl io] obtain b' where
      "grow_loop b1 sz = Returns (b', None)" "indices_ok b'" "live b' = live b1"
      "available b' sz" "count b' = count b1" "locked b' = locked b1"
      "len (data b1) \<le> len (data b')" by blast
    moreover have "grow_loop b sz = grow_loop b1 sz"
      using False g by (simp add: grow_loop.simps[of b sz])
    ultimately show ?thesis using lv c l cap gt by auto
  qed
qed

subsection \<open>Storing and loading\<close>

lemma length_ring_put [simp]: "t \<le> length d \<Longrightarrow> length (ring_put d t p) = length d"
  by (simp add: ring_put_def)

lemma ring_append:
  assumes "h < length d" "t < length d" "length (ring_live d h t) + length p < length d"
  shows "ring_live (ring_put d t p) h (ring_next (length d) t (length p)) = ring_live d h t @ p"
proof (cases "t + length p < length d")
  case True
  then show ?thesis using ring_append_flat[OF assms(1,2) True assms(3)]
    by (simp add: ring_put_def ring_next_def)
next
  case False
  then have "length d \<le> t + length p" by simp
  from ring_append_wrap[OF assms(1,2) this assms(3)] False show ?thesis
    by (simp add: ring_put_def ring_next_def)
qed

lemma ring_next_less: "i < c \<Longrightarrow> n < c \<Longrightarrow> ring_next c i n < c"
  by (auto simp: ring_next_def)

lemma put_byte_ring:
  assumes "tail b = int t" "t < length (data b)"
  shows "put_byte b v = Some (b\<lparr>data := ring_put (data b) t [v],
                                 tail := int (ring_next (length (data b)) t 1)\<rparr>)"
proof -
  have u: "(data b)[t := v] = copy_to (data b) t [v]"
    using assms(2) by (simp add: copy_to_def upd_conv_take_nth_drop)
  have c0: "copy_to (copy_to (data b) t [v]) 0 [] = copy_to (data b) t [v]"
    by (simp add: copy_to_def)
  show ?thesis
  proof (cases "t + 1 < length (data b)")
    case True
    then show ?thesis using assms
      by (simp add: put_byte_def Let_def u ring_put_def ring_next_def)
  next
    case False
    with assms have e: "length (data b) - t = 1" by simp
    from False assms show ?thesis
      by (simp add: put_byte_def Let_def u ring_put_def ring_next_def e c0)
  qed
qed

lemma put_packet_ring:
  assumes "tail b = int t" "t < length (data b)" "length p < length (data b)"
  shows "put_packet b p = Some (b\<lparr>data := ring_put (data b) t p,
                                 tail := int (ring_next (length (data b)) t (length p)),
                                 count := count b + 1\<rparr>)"
proof -
  let ?c = "length (data b)"
  have sl: "subslice (data b) (int t) (len (data b))
            = Some (take (nat (len (data b) - int t)) (drop t (data b)))"
    using assms by (simp add: subslice_def)
  show ?thesis
  proof (cases "t + length p < ?c")
    case True
    then have n: "copy_n (data b) t p = length p" by (simp add: copy_n_def)
    show ?thesis using assms True
      by (simp add: put_packet_def sl Let_def n ring_put_def ring_next_def)
  next
    case False
    then have n: "copy_n (data b) t p = ?c - t" by (simp add: copy_n_def)
    have m: "copy_n (copy_to (data b) t p) 0 (drop (?c - t) p) = t + length p - ?c"
      using assms False by (simp add: copy_n_def)
    have ge: "len (data b) \<le> int t + int (?c - t)" using assms by simp
    show ?thesis using assms False ge
      by (simp add: put_packet_def sl Let_def n m ring_put_def ring_next_def)
  qed
qed

lemma live_ring:
  "head b = int h \<Longrightarrow> tail b = int t \<Longrightarrow> live b = ring_live (data b) h t"
  by (simp add: live_def)

lemma nat_len_live: "indices_ok b \<Longrightarrow> length (live b) = nat (size_buf b)"
  using len_live[of b] by linarith

lemma length_ring_put_less [simp]: "t < length d \<Longrightarrow> length (ring_put d t p) = length d"
  by (simp add: ring_put_def)

lemma put_byte_ok:
  assumes "indices_ok b" "size_buf b + 1 < len (data b)"
  obtains b' where "put_byte b v = Some b'" "indices_ok b'" "live b' = live b @ [v]"
    "length (data b') = length (data b)" "count b' = count b" "locked b' = locked b"
    "head b' = head b"
proof -
  from assms(1) show thesis
  proof (cases rule: indices_okE)
    case 1
    with assms(2) show ?thesis by (simp add: size_buf_def)
  next
    case (2 h t)
    let ?c = "length (data b)"
    let ?b' = "b\<lparr>data := ring_put (data b) t [v], tail := int (ring_next ?c t 1)\<rparr>"
    have pb: "put_byte b v = Some ?b'" by (rule put_byte_ring[OF 2(2,4)])
    have l: "length (ring_live (data b) h t) + length [v] < ?c"
      using assms(2) nat_len_live[OF assms(1)] live_ring[OF 2(1,2)] size_buf_bounds[OF assms(1)]
      by simp
    have c1: "1 < ?c" using assms(2) size_buf_bounds[OF assms(1)] by linarith
    have nx: "ring_next ?c t 1 < ?c" by (rule ring_next_less[OF 2(4) c1])
    have lv: "live ?b' = live b @ [v]"
      using ring_append[OF 2(3,4) l] 2(1,2) by (simp add: live_def)
    have io: "indices_ok ?b'" using 2 nx by (simp add: indices_ok_def)
    show ?thesis by (rule that[OF pb io lv]) (simp_all add: 2)
  qed
qed

lemma put_packet_ok:
  assumes "indices_ok b" "size_buf b + len p < len (data b)"
  obtains b' where "put_packet b p = Some b'" "indices_ok b'" "live b' = live b @ p"
    "length (data b') = length (data b)" "count b' = count b + 1" "locked b' = locked b"
    "head b' = head b"
proof -
  from assms(1) show thesis
  proof (cases rule: indices_okE)
    case 1
    with assms(2) show ?thesis by (simp add: size_buf_def)
  next
    case (2 h t)
    let ?c = "length (data b)"
    let ?b' = "b\<lparr>data := ring_put (data b) t p, tail := int (ring_next ?c t (length p)),
                  count := count b + 1\<rparr>"
    have lp: "length p < ?c" using assms(2) size_buf_bounds[OF assms(1)] by linarith
    have pb: "put_packet b p = Some ?b'" by (rule put_packet_ring[OF 2(2,4) lp])
    have l: "length (ring_live (data b) h t) + length p < ?c"
      using assms(2) nat_len_live[OF assms(1)] live_ring[OF 2(1,2)] size_buf_bounds[OF assms(1)]
      by simp
    have nx: "ring_next ?c t (length p) < ?c" by (rule ring_next_less[OF 2(4) lp])
    have lv: "live ?b' = live b @ p"
      using ring_append[OF 2(3,4) l] 2(1,2) by (simp add: live_def)
    have io: "indices_ok ?b'" using 2 nx by (simp add: indices_ok_def)
    show ?thesis by (rule that[OF pb io lv]) (simp_all add: 2)
  qed
qed

lemma ring_live_hd:
  assumes "h < length d" "t < length d" "ring_live d h t = v # rest"
  shows "d ! h = v"
proof -
  have "1 \<le> length (ring_live d h t)" using assms(3) by simp
  from ring_peek[OF assms(1,2) this] have
    "take 1 (ring_live d h t) = take 1 (drop h d)"
    using assms(1) by (auto simp: not_less)
  then show ?thesis using assms by (simp add: take_Suc hd_drop_conv_nth)
qed

lemma get_byte_ok:
  assumes "indices_ok b" "live b = v # rest"
  obtains b' where "get_byte b = Some (v, b')" "indices_ok b'" "live b' = rest"
    "data b' = data b" "tail b' = tail b" "count b' = count b" "locked b' = locked b"
proof -
  from assms(1) show thesis
  proof (cases rule: indices_okE)
    case 1
    with assms(2) show ?thesis by (simp add: live_def ring_live_def)
  next
    case (2 h t)
    let ?c = "length (data b)"
    let ?h' = "if ?c \<le> h + 1 then h + 1 - ?c else h + 1"
    let ?b' = "b\<lparr>head := int ?h'\<rparr>"
    have rl: "ring_live (data b) h t = v # rest" using assms(2) live_ring[OF 2(1,2)] by simp
    have v: "data b ! h = v" by (rule ring_live_hd[OF 2(3,4) rl])
    have gb: "get_byte b = Some (v, ?b')" using 2 v
      by (auto simp: get_byte_def Let_def)
    have "1 \<le> length (ring_live (data b) h t)" using rl by simp
    from ring_advance[OF 2(3,4) this] have lv: "live ?b' = rest"
      using rl 2 by (simp add: live_def)
    have io: "indices_ok ?b'" using 2 by (auto simp: indices_ok_def)
    show ?thesis by (rule that[OF gb io lv]) simp_all
  qed
qed

subsection \<open>The length header\<close>

lemma decode_word:
  "(push_bit 8 (ucast (word_of_int (drop_bit 8 L) :: 8 word) :: 16 word) OR ucast (word_of_int L :: 8 word))
   = (word_of_int L :: 16 word)"
  apply (rule bit_word_eqI)
  apply (auto simp: bit_simps)
  done

lemma decode_len:
  assumes "0 \<le> L" "L < 65536"
  shows "uint (push_bit 8 (ucast (word_of_int (drop_bit 8 L) :: 8 word) :: 16 word)
               OR ucast (word_of_int L :: 8 word)) = L"
  unfolding decode_word using assms by (simp add: uint_word_of_int)

lemma copy_to_prefix:
  "length src \<le> length dst \<Longrightarrow> copy_to dst 0 src = src @ drop (length src) dst"
  by (simp add: copy_to_def)

lemma copy_to_second:
  "length s1 + length s2 \<le> length dst \<Longrightarrow>
   copy_to (s1 @ drop (length s1) dst) (length s1) s2 = s1 @ s2 @ drop (length s1 + length s2) dst"
  by (simp add: copy_to_def ac_simps)

lemma get_packet_ok:
  assumes "indices_ok b" "data b \<noteq> []" "n \<le> length (live b)" "n \<le> length dst"
  shows "get_packet b dst (int n) = Some (take n (live b) @ drop n dst)"
proof -
  from assms(1) show ?thesis
  proof (cases rule: indices_okE)
    case 1
    with assms(2) show ?thesis by simp
  next
    case (2 h t)
    let ?d = "data b"
    let ?c = "length ?d"
    have rl: "live b = ring_live ?d h t" by (rule live_ring[OF 2(1,2)])
    have n: "n \<le> length (ring_live ?d h t)" using assms(3) rl by simp
    have nc: "n < ?c" using n 2(3,4) by (simp add: length_ring_live split: if_splits)
    note pk = ring_peek[OF 2(3,4) n]
    show ?thesis
    proof (cases "h + n < ?c")
      case True
      let ?src = "take n (drop h ?d)"
      have sl: "subslice ?d (int h) (int h + int n) = Some ?src"
        using True by (simp add: subslice_def)
      have l: "length ?src = n" using True by simp
      have "copy_to dst 0 ?src = ?src @ drop n dst"
        using copy_to_prefix[of ?src dst] assms(4) l by simp
      then show ?thesis using True pk rl 2(1)
        by (simp add: get_packet_def sl)
    next
      case False
      define s1 where "s1 = drop h ?d"
      define s2 where "s2 = take (n - (?c - h)) ?d"
      have sl1: "subslice ?d (int h) (int ?c) = Some s1"
        using 2(3) by (simp add: subslice_def s1_def)
      have l1: "length s1 = ?c - h" by (simp add: s1_def)
      have l2: "length s2 = n - (?c - h)" using nc by (simp add: s2_def)
      have k: "copy_n dst 0 s1 = ?c - h" using False assms(4) by (simp add: copy_n_def l1)
      have ik: "int n - int (?c - h) = int (n - (?c - h))" using False 2(3) by simp
      have sl2: "subslice ?d 0 (int n - int (?c - h)) = Some s2"
        unfolding ik using nc by (simp add: subslice_def s2_def)
      have cond: "\<not> int h + int n < len ?d" using False by linarith
      have le1: "length s1 \<le> length dst" using False assms(4) l1 by simp
      have le2: "length s1 + length s2 \<le> length dst" using False assms(4) 2(3) nc l1 l2 by simp
      have c1: "copy_to dst 0 s1 = s1 @ drop (length s1) dst"
        by (rule copy_to_prefix[OF le1])
      have c2: "copy_to (s1 @ drop (length s1) dst) (length s1) s2
                = s1 @ s2 @ drop (length s1 + length s2) dst"
        by (rule copy_to_second[OF le2])
      have e: "length s1 + length s2 = n" using False 2(3) nc l1 l2 by simp
      have "get_packet b dst (int n) = Some (copy_to (copy_to dst 0 s1) (copy_n dst 0 s1) s2)"
        unfolding get_packet_def 2(1) if_not_P[OF cond] sl1 option.case Let_def k sl2 ..
      also have "copy_n dst 0 s1 = length s1" by (simp only: k l1)
      also have "copy_to (copy_to dst 0 s1) (length s1) s2 = s1 @ s2 @ drop n dst"
        by (simp only: c1 c2 e)
      also have "s1 @ s2 @ drop n dst = take n (live b) @ drop n dst"
        using False pk rl by (simp add: s1_def s2_def)
      finally show ?thesis .
    qed
  qed
qed

lemma advance_head_ok:
  assumes "indices_ok b" "data b \<noteq> []" "n \<le> length (live b)"
  shows "indices_ok (advance_head b (int n))"
    and "live (advance_head b (int n)) = drop n (live b)"
    and "data (advance_head b (int n)) = data b"
    and "count (advance_head b (int n)) = count b"
    and "locked (advance_head b (int n)) = locked b"
proof -
  define b1 where "b1 = b\<lparr>head := head b + int n\<rparr>"
  define b2 where "b2 = (if head b1 \<ge> len (data b1) then b1\<lparr>head := head b1 - len (data b1)\<rparr> else b1)"
  define b3 where "b3 = (if head b2 = tail b2 then b2\<lparr>head := 0, tail := 0\<rparr> else b2)"
  have b3: "advance_head b (int n) = b3"
    by (simp add: advance_head_def Let_def b3_def b2_def b1_def)
  from assms(1) have "indices_ok b3 \<and> live b3 = drop n (live b)"
  proof (cases rule: indices_okE)
    case 1
    with assms(2) show ?thesis by simp
  next
    case (2 h t)
    let ?d = "data b"
    let ?c = "length ?d"
    let ?h' = "if ?c \<le> h + n then h + n - ?c else h + n"
    have rl: "live b = ring_live ?d h t" by (rule live_ring[OF 2(1,2)])
    have n: "n \<le> length (ring_live ?d h t)" using assms(3) rl by simp
    have nc: "n < ?c" using n 2(3,4) by (simp add: length_ring_live split: if_splits)
    have b2: "b2 = b\<lparr>head := int ?h'\<rparr>"
      using 2 by (auto simp: b2_def b1_def)
    have h': "?h' < ?c" using nc 2(3) by auto
    have lv2: "live b2 = drop n (live b)"
      using ring_advance[OF 2(3,4) n] rl 2(2) unfolding b2 by (simp add: live_def)
    have io2: "indices_ok b2" unfolding b2 using h' 2 by (simp add: indices_ok_def)
    show ?thesis
    proof (cases "head b2 = tail b2")
      case True
      then have "live b2 = []" using live_empty_iff[OF io2] by simp
      moreover have "live b3 = []" using True by (simp add: b3_def live_def ring_live_def)
      moreover have "indices_ok b3" using True assms(2) b2
        by (simp add: b3_def indices_ok_def)
      ultimately show ?thesis using lv2 by simp
    next
      case False
      then have "b3 = b2" by (simp add: b3_def)
      then show ?thesis using io2 lv2 by simp
    qed
  qed
  then show "indices_ok (advance_head b (int n))"
    and "live (advance_head b (int n)) = drop n (live b)" unfolding b3 by simp_all
  show "data (advance_head b (int n)) = data b" and "count (advance_head b (int n)) = count b"
    and "locked (advance_head b (int n)) = locked b"
    unfolding b3 by (simp_all add: b3_def b2_def b1_def)
qed

subsection \<open>\<^verbatim>\<open>Write\<close> and \<^verbatim>\<open>Read\<close> on the queue\<close>

lemma locked_update_simps [simp]:
  "indices_ok (b\<lparr>locked := x\<rparr>) = indices_ok b"
  "live (b\<lparr>locked := x\<rparr>) = live b"
  "size_buf (b\<lparr>locked := x\<rparr>) = size_buf b"
  by (simp_all add: indices_ok_def live_def size_buf_def Let_def)

lemma count_update_simps [simp]:
  "indices_ok (b\<lparr>count := x\<rparr>) = indices_ok b"
  "live (b\<lparr>count := x\<rparr>) = live b"
  "size_buf (b\<lparr>count := x\<rparr>) = size_buf b"
  by (simp_all add: indices_ok_def live_def size_buf_def Let_def)

lemma unlock_unlocked: "\<not> locked b \<Longrightarrow> b\<lparr>locked := True\<rparr>\<lparr>locked := False\<rparr> = b"
  by (cases b) simp

lemma Write_ok:
  assumes "queue_inv b ps" "length p < 65536"
  obtains b' where "Write b p = Returns (b', len p, None)" "queue_inv b' (ps @ [p])"
    "len (data b) \<le> len (data b')"
proof -
  let ?hi = "word_of_int (drop_bit 8 (len p)) :: byte"
  let ?lo = "word_of_int (len p) :: byte"
  from assms(1) have ul: "\<not> locked b" and io: "indices_ok b"
    and lv: "live b = concat (map frame ps)"
    and la: "list_all (\<lambda>p. length p < 65536) ps" and cn: "count b = len ps"
    by (simp_all add: queue_inv_def holds_def)
  let ?b0 = "b\<lparr>locked := True\<rparr>"
  have io0: "indices_ok ?b0" using io by simp
  from grow_loop_ok[OF io0, of "len p"] obtain b1 where
    gl: "grow_loop ?b0 (len p) = Returns (b1, None)" and io1: "indices_ok b1"
    and lv1: "live b1 = live b" and av: "available b1 (len p)"
    and c1: "count b1 = count b" and l1: "locked b1" and cap: "len (data b) \<le> len (data b1)"
    by auto
  from av have room: "size_buf b1 + len p + 3 \<le> len (data b1)"
    by (simp add: available_iff[OF io1])
  then have r1: "size_buf b1 + 1 < len (data b1)" by simp
  from put_byte_ok[OF io1 r1, of ?hi] obtain b2 where
    p2: "put_byte b1 ?hi = Some b2" and io2: "indices_ok b2" and lv2: "live b2 = live b1 @ [?hi]"
    and d2: "length (data b2) = length (data b1)" and c2: "count b2 = count b1"
    and l2: "locked b2 = locked b1" by blast
  have s2: "size_buf b2 = size_buf b1 + 1"
    using len_live[OF io2] len_live[OF io1] lv2 by simp
  have r2: "size_buf b2 + 1 < len (data b2)" using room s2 d2 by simp
  from put_byte_ok[OF io2 r2, of ?lo] obtain b3 where
    p3: "put_byte b2 ?lo = Some b3" and io3: "indices_ok b3" and lv3: "live b3 = live b2 @ [?lo]"
    and d3: "length (data b3) = length (data b2)" and c3: "count b3 = count b2"
    and l3: "locked b3 = locked b2" by blast
  have s3: "size_buf b3 = size_buf b2 + 1"
    using len_live[OF io3] len_live[OF io2] lv3 by simp
  have r3: "size_buf b3 + len p < len (data b3)" using room s2 s3 d2 d3 by simp
  from put_packet_ok[OF io3 r3] obtain b4 where
    p4: "put_packet b3 p = Some b4" and io4: "indices_ok b4" and lv4: "live b4 = live b3 @ p"
    and d4: "length (data b4) = length (data b3)" and c4: "count b4 = count b3 + 1"
    and l4: "locked b4 = locked b3" by blast
  let ?b' = "b4\<lparr>locked := False\<rparr>"
  have p2': "put_byte b1 (word_of_int (drop_bit 8 (len p))) = Some b2" using p2 by simp
  have p3': "put_byte b2 (word_of_int (len p)) = Some b3" using p3 by simp
  have nb: "\<not> len p \<ge> 0x10000" using assms(2) by simp
  have w: "Write b p = Returns (?b', len p, None)"
    unfolding Write_def if_not_P[OF nb] if_not_P[OF ul] gl result.case prod.case option.case
      p2' p3' p4 ..
  have lv': "live ?b' = concat (map frame (ps @ [p]))"
    using lv4 lv3 lv2 lv1 lv by (simp add: frame_def)
  have q: "queue_inv ?b' (ps @ [p])"
    using io4 lv' la assms(2) c4 c3 c2 c1 cn by (simp add: queue_inv_def holds_def)
  have "len (data b) \<le> len (data ?b')" using cap d2 d3 d4 by simp
  with w q show thesis by (rule that)
qed

lemma Read_empty:
  assumes "queue_inv b []"
  shows "Read b dst = Returns (b, dst, 0, None)"
proof -
  from assms have ul: "\<not> locked b" and io: "indices_ok b" and lv: "live b = []"
    by (simp_all add: queue_inv_def holds_def)
  from lv have "head b = tail b" using live_empty_iff[OF io] by simp
  then show ?thesis using ul by (simp add: Read_def unlock_unlocked)
qed

lemma Read_header:
  assumes "queue_inv b (p # ps)"
  obtains b1 b2 where
    "get_byte (b\<lparr>locked := True\<rparr>) = Some (word_of_int (drop_bit 8 (len p)), b1)"
    "get_byte b1 = Some (word_of_int (len p), b2)"
    "indices_ok b2" "live b2 = p @ concat (map frame ps)" "data b2 = data b" "tail b2 = tail b"
    "count b2 = count b" "locked b2" "head b \<noteq> tail b" "data b \<noteq> []"
proof -
  let ?hi = "word_of_int (drop_bit 8 (len p)) :: byte"
  let ?lo = "word_of_int (len p) :: byte"
  let ?rest = "concat (map frame ps)"
  from assms have io: "indices_ok b" and lv: "live b = ?hi # ?lo # p @ ?rest"
    by (simp_all add: queue_inv_def holds_def frame_def)
  let ?b0 = "b\<lparr>locked := True\<rparr>"
  have io0: "indices_ok ?b0" and lv0: "live ?b0 = ?hi # ?lo # p @ ?rest" using io lv by simp_all
  have ne: "head b \<noteq> tail b" using live_empty_iff[OF io] lv by auto
  have dne: "data b \<noteq> []" using io ne by (auto simp: indices_ok_def)
  from get_byte_ok[OF io0 lv0] obtain b1 where
    g1: "get_byte ?b0 = Some (?hi, b1)" and io1: "indices_ok b1" and lv1: "live b1 = ?lo # p @ ?rest"
    and d1: "data b1 = data ?b0" and t1: "tail b1 = tail ?b0" and c1: "count b1 = count ?b0"
    and l1: "locked b1 = locked ?b0" by blast
  from get_byte_ok[OF io1 lv1] obtain b2 where
    g2: "get_byte b1 = Some (?lo, b2)" and io2: "indices_ok b2" and lv2: "live b2 = p @ ?rest"
    and d2: "data b2 = data b1" and t2: "tail b2 = tail b1" and c2: "count b2 = count b1"
    and l2: "locked b2 = locked b1" by blast
  show thesis
    by (rule that[OF g1 g2 io2 lv2]) (use d1 d2 t1 t2 c1 c2 l1 l2 ne dne in auto)
qed

lemma Read_ok:
  assumes "queue_inv b (p # ps)" "length p \<le> length dst"
  obtains b' where "Read b dst = Returns (b', p @ drop (length p) dst, len p, None)"
    "queue_inv b' ps" "data b' = data b"
proof -
  let ?hi = "word_of_int (drop_bit 8 (len p)) :: byte"
  let ?lo = "word_of_int (len p) :: byte"
  from assms(1) have ul: "\<not> locked b" and lp: "length p < 65536"
    and la: "list_all (\<lambda>p. length p < 65536) ps" and cn: "count b = len (p # ps)"
    by (simp_all add: queue_inv_def holds_def)
  from Read_header[OF assms(1)] obtain b1 b2 where
    g1: "get_byte (b\<lparr>locked := True\<rparr>) = Some (?hi, b1)"
    and g2: "get_byte b1 = Some (?lo, b2)"
    and io2: "indices_ok b2" and lv2: "live b2 = p @ concat (map frame ps)"
    and d2: "data b2 = data b" and c2: "count b2 = count b"
    and ne: "head b \<noteq> tail b" and dne: "data b \<noteq> []" by metis
  have dec: "uint (push_bit 8 (ucast ?hi :: 16 word) OR (ucast ?lo :: 16 word)) = len p"
    using lp by (intro decode_len) simp_all
  have dne2: "data b2 \<noteq> []" using dne d2 by simp
  have n: "length p \<le> length (live b2)" using lv2 by simp
  have gp: "get_packet b2 dst (len p) = Some (p @ drop (length p) dst)"
    using get_packet_ok[OF io2 dne2 n assms(2)] lv2 by simp
  note ah = advance_head_ok[OF io2 dne2 n]
  let ?b3 = "advance_head b2 (len p)"
  let ?b' = "?b3\<lparr>count := count ?b3 - 1\<rparr>\<lparr>locked := False\<rparr>"
  have ne0: "head (b\<lparr>locked := True\<rparr>) \<noteq> tail (b\<lparr>locked := True\<rparr>)" using ne by simp
  have ns: "\<not> len dst < len p" using assms(2) by simp
  have r: "Read b dst = Returns (?b', p @ drop (length p) dst, len p, None)"
    unfolding Read_def if_not_P[OF ul] Let_def if_P[OF ne0] g1 option.case prod.case g2 dec
      if_not_P[OF ns] gp ..
  have q: "queue_inv ?b' ps"
    using ah lv2 la cn c2 by (simp add: queue_inv_def holds_def)
  have "data ?b' = data b" using ah(3) d2 by simp
  with r q show thesis by (rule that)
qed

lemma Read_short:
  assumes "queue_inv b (p # ps)" "length dst < length p"
  obtains b' where
    "Read b dst = Returns (b', dst, 0,
       Some (ErrorString (''short buffer, at least '' @ fmt_d (len p) @ '' is needed'')))"
    "locked b'" "live b' = p @ concat (map frame ps)" "data b' = data b" "tail b' = tail b"
    "count b' = count b" "indices_ok b'"
proof -
  let ?hi = "word_of_int (drop_bit 8 (len p)) :: byte"
  let ?lo = "word_of_int (len p) :: byte"
  from assms(1) have ul: "\<not> locked b" and lp: "length p < 65536"
    by (simp_all add: queue_inv_def holds_def)
  from Read_header[OF assms(1)] obtain b1 b2 where
    g1: "get_byte (b\<lparr>locked := True\<rparr>) = Some (?hi, b1)"
    and g2: "get_byte b1 = Some (?lo, b2)"
    and io2: "indices_ok b2" and lv2: "live b2 = p @ concat (map frame ps)"
    and d2: "data b2 = data b" and t2: "tail b2 = tail b" and c2: "count b2 = count b"
    and l2: "locked b2"
    and ne: "head b \<noteq> tail b" by metis
  have dec: "uint (push_bit 8 (ucast ?hi :: 16 word) OR (ucast ?lo :: 16 word)) = len p"
    using lp by (intro decode_len) simp_all
  have ne0: "head (b\<lparr>locked := True\<rparr>) \<noteq> tail (b\<lparr>locked := True\<rparr>)" using ne by simp
  have sh: "len dst < len p" using assms(2) by simp
  have r: "Read b dst = Returns (b2, dst, 0,
       Some (ErrorString (''short buffer, at least '' @ fmt_d (len p) @ '' is needed'')))"
    unfolding Read_def if_not_P[OF ul] Let_def if_P[OF ne0] g1 option.case prod.case g2 dec
      if_P[OF sh] ..
  show thesis by (rule that[OF r l2 lv2 d2 t2 c2 io2])
qed

lemma queue_inv_fresh: "queue_inv NewBuffer []"
  by (simp add: queue_inv_def holds_def indices_ok_def live_def ring_live_def NewBuffer_def)

lemma Count_unlocked: "\<not> locked b \<Longrightarrow> Count b = Returns (b, count b)"
  by (simp add: Count_def Let_def unlock_unlocked)

lemma Size_unlocked: "\<not> locked b \<Longrightarrow> Size b = Returns (b, size_buf b)"
  by (simp add: Size_def Let_def unlock_unlocked)

lemma len_frames: "len (concat (map frame ps)) = (\<Sum>p\<leftarrow>ps. 2 + len p)"
  by (induction ps) (simp_all add: frame_def)

lemma queue_inv_size: "queue_inv b ps \<Longrightarrow> size_buf b = (\<Sum>p\<leftarrow>ps. 2 + len p)"
  using len_live[of b] len_frames[of ps] by (simp add: queue_inv_def holds_def)

lemma queue_inv_Count: "queue_inv b ps \<Longrightarrow> Count b = Returns (b, len ps)"
  by (simp add: queue_inv_def holds_def Count_unlocked)

lemma queue_inv_Size: "queue_inv b ps \<Longrightarrow> Size b = Returns (b, \<Sum>p\<leftarrow>ps. 2 + len p)"
  using queue_inv_size[of b ps] by (simp add: queue_inv_def Size_unlocked)

lemma Write_too_big: "65536 \<le> length p \<Longrightarrow> Write b p = Returns (b, 0, Some ErrPacketTooBig)"
  by (simp add: Write_def)

lemma Write_error_None:
  assumes "length p < 65536" "Write b p = Returns (b', n, e)"
  shows "e = None"
proof -
  have nb: "\<not> len p \<ge> 0x10000" using assms(1) by simp
  show ?thesis
  proof (cases "grow_loop (b\<lparr>locked := True\<rparr>) (len p)")
    case (Returns x)
    obtain b1 e1 where x: "x = (b1, e1)" by (cases x)
    from grow_loop_None[OF Returns[unfolded x]] have e1: "e1 = None" .
    show ?thesis using assms(2) unfolding Write_def if_not_P[OF nb] Returns x e1
      by (auto split: if_splits option.splits)
  next
    case Panics
    then show ?thesis using assms(2) unfolding Write_def if_not_P[OF nb]
      by (auto split: if_splits)
  next
    case Blocks
    then show ?thesis using assms(2) unfolding Write_def if_not_P[OF nb]
      by (auto split: if_splits)
  qed
qed

lemma Write_locked:
  "locked b \<Longrightarrow> Write b p = (if 65536 \<le> length p then Returns (b, 0, Some ErrPacketTooBig) else Blocks)"
  by (simp add: Write_def)

lemma Read_locked: "locked b \<Longrightarrow> Read b dst = Blocks"
  by (simp add: Read_def)

lemma reachable_cases: "reachable b \<Longrightarrow> locked b \<or> (\<exists>ps. queue_inv b ps)"
proof (induction rule: reachable.induct)
  case fresh
  show ?case using queue_inv_fresh by blast
next
  case (after_Write b p b' n e)
  show ?case
  proof (cases "65536 \<le> length p")
    case True
    with after_Write show ?thesis by (simp add: Write_too_big)
  next
    case False
    from after_Write(3) show ?thesis
    proof
      assume "locked b"
      with False after_Write(2) show ?thesis by (simp add: Write_locked)
    next
      assume "\<exists>ps. queue_inv b ps"
      then obtain ps where q: "queue_inv b ps" ..
      from False have "length p < 65536" by simp
      from Write_ok[OF q this] after_Write(2) show ?thesis by force
    qed
  qed
next
  case (after_Read b dst b' dst' n e)
  from after_Read(3) show ?case
  proof
    assume "locked b"
    with after_Read(2) show ?thesis by (simp add: Read_locked)
  next
    assume "\<exists>ps. queue_inv b ps"
    then obtain ps where q: "queue_inv b ps" ..
    show ?thesis
    proof (cases ps)
      case Nil
      with q after_Read(2) show ?thesis by (auto simp: Read_empty)
    next
      case (Cons p ps')
      show ?thesis
      proof (cases "length p \<le> length dst")
        case True
        from Read_ok[OF q[unfolded Cons] True] after_Read(2) show ?thesis by force
      next
        case False
        then have "length dst < length p" by simp
        from Read_short[OF q[unfolded Cons] this] after_Read(2) show ?thesis by force
      qed
    qed
  qed
qed

subsection \<open>Sequences of calls\<close>

lemma calls_Write_ok:
  assumes "queue_inv b q" "length p < 65536"
  obtains b' where "queue_inv b' (q @ [p])"
    "\<And>buf cs. calls b buf (CallWrite p # cs) = WriteReply (len p) None # calls b' buf cs"
proof -
  from Write_ok[OF assms] obtain b' where
    w: "Write b p = Returns (b', len p, None)" and q: "queue_inv b' (q @ [p])" by blast
  show thesis by (rule that[OF q]) (simp add: w)
qed

lemma calls_Write_too_big:
  "65536 \<le> length p \<Longrightarrow>
   calls b buf (CallWrite p # cs) = WriteReply 0 (Some ErrPacketTooBig) # calls b buf cs"
  by (simp add: Write_too_big)

lemma calls_Read_ok:
  assumes "queue_inv b (p # q)" "length p \<le> length buf"
  obtains b' where "queue_inv b' q"
    "\<And>cs. calls b buf (CallRead # cs)
       = ReadReply (len p) None (p @ drop (length p) buf) # calls b' (p @ drop (length p) buf) cs"
proof -
  from Read_ok[OF assms] obtain b' where
    r: "Read b buf = Returns (b', p @ drop (length p) buf, len p, None)"
    and q: "queue_inv b' q" by blast
  show thesis by (rule that[OF q]) (simp add: r)
qed

lemma calls_Read_empty:
  "queue_inv b [] \<Longrightarrow> calls b buf (CallRead # cs) = ReadReply 0 None buf # calls b buf cs"
  by (simp add: Read_empty)

lemma calls_Read_short:
  assumes "queue_inv b (p # q)" "length buf < length p"
  obtains b' where "locked b'"
    "\<And>cs. calls b buf (CallRead # cs)
       = ReadReply 0 (Some (ErrorString (''short buffer, at least '' @ fmt_d (len p) @ '' is needed''))) buf
         # calls b' buf cs"
proof -
  from Read_short[OF assms] obtain b' where
    r: "Read b buf = Returns (b', buf, 0,
       Some (ErrorString (''short buffer, at least '' @ fmt_d (len p) @ '' is needed'')))"
    and l: "locked b'" by blast
  show thesis by (rule that[OF l]) (simp add: r)
qed

lemma calls_Read_locked: "locked b \<Longrightarrow> calls b buf (CallRead # cs) = [Blocked]"
  by (simp add: Read_locked)

lemma calls_Count: "queue_inv b q \<Longrightarrow> calls b buf (CallCount # cs) = IntReply (len q) # calls b buf cs"
  by (simp add: queue_inv_Count)

lemma calls_Size:
  "queue_inv b q \<Longrightarrow>
   calls b buf (CallSize # cs) = IntReply (\<Sum>p\<leftarrow>q. 2 + len p) # calls b buf cs"
  by (simp add: queue_inv_Size)

lemma calls_writes:
  assumes "queue_inv b q" "list_all (\<lambda>p. length p \<le> 65535) ps"
  obtains b' where "queue_inv b' (q @ ps)"
    "\<And>buf cs. calls b buf (map CallWrite ps @ cs)
       = map (\<lambda>p. WriteReply (len p) None) ps @ calls b' buf cs"
  using assms
proof (induction ps arbitrary: b q thesis)
  case Nil
  show ?case by (rule Nil(1)[of b]) (use Nil in simp_all)
next
  case (Cons p ps)
  from Cons.prems(3) have lp: "length p < 65536" and rest: "list_all (\<lambda>p. length p \<le> 65535) ps"
    by simp_all
  from calls_Write_ok[OF Cons.prems(2) lp] obtain b1 where
    q1: "queue_inv b1 (q @ [p])"
    and c1: "\<And>buf cs. calls b buf (CallWrite p # cs) = WriteReply (len p) None # calls b1 buf cs"
    by blast
  from Cons.IH[OF _ q1 rest] obtain b' where
    q': "queue_inv b' ((q @ [p]) @ ps)"
    and c': "\<And>buf cs. calls b1 buf (map CallWrite ps @ cs)
       = map (\<lambda>p. WriteReply (len p) None) ps @ calls b' buf cs"
    by blast
  show ?case by (rule Cons.prems(1)[of b']) (use q' c1 c' in simp_all)
qed

lemma calls_reads:
  assumes "queue_inv b (ps @ q)" "list_all2 (\<lambda>p d. length p \<le> length d) ps dsts"
  shows "calls b buf (concat (map (\<lambda>d. [CallBuf d, CallRead]) dsts))
         = map2 (\<lambda>p d. ReadReply (len p) None (p @ drop (length p) d)) ps dsts"
  using assms(2,1)
proof (induction ps dsts arbitrary: b buf rule: list_all2_induct)
  case Nil
  show ?case by simp
next
  case (Cons p ps d dsts)
  from Cons.prems have q: "queue_inv b (p # (ps @ q))" by simp
  from calls_Read_ok[OF q Cons.hyps(1)] obtain b1 where
    q1: "queue_inv b1 (ps @ q)"
    and c1: "\<And>cs. calls b d (CallRead # cs)
       = ReadReply (len p) None (p @ drop (length p) d) # calls b1 (p @ drop (length p) d) cs"
    by blast
  show ?case using Cons.IH[OF q1] c1 by simp
qed

section \<open>Properties\<close>

declare digits.simps [simp del]

lemma fmt_d_3: "fmt_d 3 = ''3''"
  by (simp add: fmt_d_def digits.simps[of 3])

text \<open>
  C1: on a fresh Buffer, writing the packets \<open>ps\<close>, each of at most 65535 bytes, and then
  reading once per packet into destinations \<open>dsts\<close> that are each long enough, every
  \<^verbatim>\<open>Write\<close> returns the packet's length and no error, and the reads return the packets
  in the order written: each returns the packet's length and no error, and leaves the
  packet's bytes at the front of its destination (the rest of the destination is untouched).
\<close>

theorem fifo_round_trip:
  assumes "list_all (\<lambda>p. length p \<le> 65535) ps"
    and "list_all2 (\<lambda>p d. length p \<le> length d) ps dsts"
  shows "calls NewBuffer buf (map CallWrite ps @ concat (map (\<lambda>d. [CallBuf d, CallRead]) dsts))
         = map (\<lambda>p. WriteReply (len p) None) ps
           @ map2 (\<lambda>p d. ReadReply (len p) None (p @ drop (length p) d)) ps dsts"
proof -
  from calls_writes[OF queue_inv_fresh assms(1)] obtain b' where
    q: "queue_inv b' ([] @ ps)"
    and c: "\<And>buf cs. calls NewBuffer buf (map CallWrite ps @ cs)
       = map (\<lambda>p. WriteReply (len p) None) ps @ calls b' buf cs"
    by blast
  from q have "queue_inv b' (ps @ [])" by simp
  from calls_reads[OF this assms(2)] c show ?thesis by simp
qed

theorem fifo_round_trip_witness:
  "list_all (\<lambda>p. length p \<le> 65535) [[1, 2], [], [3 :: byte]] \<and>
   list_all2 (\<lambda>p d. length p \<le> length d) [[1, 2], [], [3 :: byte]] [[0, 0, 0], [], [9 :: byte]] \<and>
   calls NewBuffer [] [CallWrite [1, 2], CallWrite [], CallWrite [3],
                       CallBuf [0, 0, 0], CallRead, CallBuf [], CallRead, CallBuf [9], CallRead]
   = [WriteReply 2 None, WriteReply 0 None, WriteReply 1 None,
      ReadReply 2 None [1, 2, 0], ReadReply 0 None [], ReadReply 1 None [3]]"
  using fifo_round_trip[of "[[1, 2], [], [3]]" "[[0, 0, 0], [], [9]]" "[]"] by simp

text \<open>
  The scenario of the test \<^verbatim>\<open>TestBuffer\<close>, run on this Buffer: the destination is
  \<^verbatim>\<open>make([]byte, 4)\<close> and is reused by every \<^verbatim>\<open>Read\<close>.
\<close>

lemma scenario_replies:
  "calls NewBuffer []
     [CallBuf [0, 0, 0, 0], CallWrite [0, 1], CallRead, CallWrite [2, 3, 4], CallWrite [5, 6, 7],
      CallCount, CallSize, CallRead, CallRead, CallRead]
   = [WriteReply 2 None, ReadReply 2 None [0, 1, 0, 0], WriteReply 3 None, WriteReply 3 None,
      IntReply 2, IntReply 10, ReadReply 3 None [2, 3, 4, 0], ReadReply 3 None [5, 6, 7, 0],
      ReadReply 0 None [5, 6, 7, 0]]"
proof -
  from calls_Write_ok[OF queue_inv_fresh, of "[0, 1]"] obtain b1 where
    q1: "queue_inv b1 [[0, 1]]"
    and c1: "\<And>buf cs. calls NewBuffer buf (CallWrite [0, 1] # cs) = WriteReply 2 None # calls b1 buf cs"
    by auto
  from calls_Read_ok[OF q1, of "[0, 0, 0, 0]"] obtain b2 where
    q2: "queue_inv b2 []"
    and c2: "\<And>cs. calls b1 [0, 0, 0, 0] (CallRead # cs)
             = ReadReply 2 None [0, 1, 0, 0] # calls b2 [0, 1, 0, 0] cs"
    by auto
  from calls_Write_ok[OF q2, of "[2, 3, 4]"] obtain b3 where
    q3: "queue_inv b3 [[2, 3, 4]]"
    and c3: "\<And>buf cs. calls b2 buf (CallWrite [2, 3, 4] # cs) = WriteReply 3 None # calls b3 buf cs"
    by auto
  from calls_Write_ok[OF q3, of "[5, 6, 7]"] obtain b4 where
    q4: "queue_inv b4 [[2, 3, 4], [5, 6, 7]]"
    and c4: "\<And>buf cs. calls b3 buf (CallWrite [5, 6, 7] # cs) = WriteReply 3 None # calls b4 buf cs"
    by auto
  have c5: "\<And>buf cs. calls b4 buf (CallCount # cs) = IntReply 2 # calls b4 buf cs"
    using calls_Count[OF q4] by simp
  have c6: "\<And>buf cs. calls b4 buf (CallSize # cs) = IntReply 10 # calls b4 buf cs"
    using calls_Size[OF q4] by simp
  from calls_Read_ok[OF q4, of "[0, 1, 0, 0]"] obtain b5 where
    q5: "queue_inv b5 [[5, 6, 7]]"
    and c7: "\<And>cs. calls b4 [0, 1, 0, 0] (CallRead # cs)
             = ReadReply 3 None [2, 3, 4, 0] # calls b5 [2, 3, 4, 0] cs"
    by auto
  from calls_Read_ok[OF q5, of "[2, 3, 4, 0]"] obtain b6 where
    q6: "queue_inv b6 []"
    and c8: "\<And>cs. calls b5 [2, 3, 4, 0] (CallRead # cs)
             = ReadReply 3 None [5, 6, 7, 0] # calls b6 [5, 6, 7, 0] cs"
    by auto
  have c9: "\<And>buf cs. calls b6 buf (CallRead # cs) = ReadReply 0 None buf # calls b6 buf cs"
    using calls_Read_empty[OF q6] by simp
  show ?thesis
    by (simp only: calls.simps(1,2) c1 c2 c3 c4 c5 c6 c7 c8 c9)
qed

text \<open>
  C3 (as amended): in the scenario \<^verbatim>\<open>Write([0,1]); Read(buf4); Write([2,3,4]);
  Write([5,6,7]); Count(); Size(); Read(buf4); Read(buf4); Read(buf4)\<close> on a fresh Buffer
  the replies are \<open>(2, nil)\<close>; \<open>(2, nil)\<close> with \<open>[0,1]\<close>; \<open>(3, nil)\<close>; \<open>(3, nil)\<close>;
  2; 10; \<open>(3, nil)\<close> with \<open>[2,3,4]\<close>; \<open>(3, nil)\<close> with \<open>[5,6,7]\<close>; \<open>(0, nil)\<close>.
  \<^verbatim>\<open>Size()\<close> counts the two length bytes of each of the two records: \<open>2 * (2 + 3) = 10\<close>.
\<close>

theorem scenario_size_is_10:
  "calls NewBuffer []
     [CallBuf [0, 0, 0, 0], CallWrite [0, 1], CallRead, CallWrite [2, 3, 4], CallWrite [5, 6, 7],
      CallCount, CallSize, CallRead, CallRead, CallRead]
   = [WriteReply 2 None, ReadReply 2 None [0, 1, 0, 0], WriteReply 3 None, WriteReply 3 None,
      IntReply 2, IntReply 10, ReadReply 3 None [2, 3, 4, 0], ReadReply 3 None [5, 6, 7, 0],
      ReadReply 0 None [5, 6, 7, 0]]"
  by (rule scenario_replies)

text \<open>
  C3 as stated has \<^verbatim>\<open>Size() == 6\<close> in that scenario; the replies of the code differ
  from the stated ones.
\<close>

theorem scenario_size_not_6:
  "calls NewBuffer []
     [CallBuf [0, 0, 0, 0], CallWrite [0, 1], CallRead, CallWrite [2, 3, 4], CallWrite [5, 6, 7],
      CallCount, CallSize, CallRead, CallRead, CallRead]
   \<noteq> [WriteReply 2 None, ReadReply 2 None [0, 1, 0, 0], WriteReply 3 None, WriteReply 3 None,
      IntReply 2, IntReply 6, ReadReply 3 None [2, 3, 4, 0], ReadReply 3 None [5, 6, 7, 0],
      ReadReply 0 None [5, 6, 7, 0]]"
  unfolding scenario_replies by simp

lemma short_read_replies:
  "calls NewBuffer []
     [CallWrite [1, 2, 3], CallBuf [0, 0], CallRead, CallBuf [0, 0, 0, 0], CallRead]
   = [WriteReply 3 None,
      ReadReply 0 (Some (ErrorString ''short buffer, at least 3 is needed'')) [0, 0],
      Blocked]"
proof -
  from calls_Write_ok[OF queue_inv_fresh, of "[1, 2, 3]"] obtain b1 where
    q1: "queue_inv b1 [[1, 2, 3]]"
    and c1: "\<And>buf cs. calls NewBuffer buf (CallWrite [1, 2, 3] # cs) = WriteReply 3 None # calls b1 buf cs"
    by auto
  from calls_Read_short[OF q1, of "[0, 0]"] obtain b2 where
    l2: "locked b2"
    and c2: "\<And>cs. calls b1 [0, 0] (CallRead # cs)
       = ReadReply 0 (Some (ErrorString ''short buffer, at least 3 is needed'')) [0, 0]
         # calls b2 [0, 0] cs"
    by (auto simp: fmt_d_3)
  have c3: "\<And>buf cs. calls b2 buf (CallRead # cs) = [Blocked]"
    by (rule calls_Read_locked[OF l2])
  show ?thesis by (simp only: calls.simps(1,2) c1 c2 c3)
qed

text \<open>
  C10: on an empty Buffer, writing a zero-length packet returns \<open>(0, nil)\<close>, queues a
  record of two length bytes and makes \<^verbatim>\<open>Count()\<close> 1 and \<^verbatim>\<open>Size()\<close> 2; the next
  \<^verbatim>\<open>Read\<close> returns \<open>(0, nil)\<close> and leaves the destination untouched, exactly the reply
  of a \<^verbatim>\<open>Read\<close> on the empty Buffer, yet it consumes the record: afterwards no live byte
  is left (\<open>head = tail\<close>), \<^verbatim>\<open>Count()\<close> and \<^verbatim>\<open>Size()\<close> are 0, and a further \<^verbatim>\<open>Read\<close>
  finds the Buffer empty and changes neither.
\<close>

theorem zero_length_packet:
  assumes "queue_inv b []"
  shows "calls b buf [CallWrite [], CallCount, CallSize, CallRead, CallCount, CallSize,
                      CallRead, CallCount, CallSize]
         = [WriteReply 0 None, IntReply 1, IntReply 2, ReadReply 0 None buf, IntReply 0, IntReply 0,
            ReadReply 0 None buf, IntReply 0, IntReply 0]
       \<and> calls b buf [CallRead] = [ReadReply 0 None buf]
       \<and> (\<exists>b1 b2. Write b [] = Returns (b1, 0, None) \<and> queue_inv b1 [[]] \<and>
                   live b1 = live b @ [0, 0] \<and>
                   Read b1 buf = Returns (b2, buf, 0, None) \<and> queue_inv b2 [] \<and>
                   live b2 = [] \<and> head b2 = tail b2 \<and> count b2 = count b1 - 1)"
proof -
  from Write_ok[OF assms, of "[]"] obtain b1 where
    w: "Write b [] = Returns (b1, 0, None)" and q1: "queue_inv b1 [[]]" by auto
  from Read_ok[OF q1, of buf] obtain b2 where
    r: "Read b1 buf = Returns (b2, buf, 0, None)" and q2: "queue_inv b2 []" by auto
  have lb: "live b = []" using assms by (simp add: queue_inv_def holds_def)
  have l1: "live b1 = live b @ [0, 0]" using q1 lb by (simp add: queue_inv_def holds_def frame_def)
  have l2: "live b2 = []" and io2: "indices_ok b2" and c2: "count b2 = 0"
    using q2 by (simp_all add: queue_inv_def holds_def)
  have c1: "count b1 = 1" using q1 by (simp add: queue_inv_def holds_def)
  have ht: "head b2 = tail b2" using live_empty_iff[OF io2] l2 by simp
  have c1': "\<And>buf cs. calls b buf (CallWrite [] # cs) = WriteReply 0 None # calls b1 buf cs"
    by (simp add: w)
  have c2': "\<And>buf cs. calls b1 buf (CallCount # cs) = IntReply 1 # calls b1 buf cs"
    using calls_Count[OF q1] by simp
  have c3': "\<And>buf cs. calls b1 buf (CallSize # cs) = IntReply 2 # calls b1 buf cs"
    using calls_Size[OF q1] by simp
  have c4': "\<And>cs. calls b1 buf (CallRead # cs) = ReadReply 0 None buf # calls b2 buf cs"
    by (simp add: r)
  have c5': "\<And>buf cs. calls b2 buf (CallCount # cs) = IntReply 0 # calls b2 buf cs"
    using calls_Count[OF q2] by simp
  have c6': "\<And>buf cs. calls b2 buf (CallSize # cs) = IntReply 0 # calls b2 buf cs"
    using calls_Size[OF q2] by simp
  have c7': "\<And>buf cs. calls b2 buf (CallRead # cs) = ReadReply 0 None buf # calls b2 buf cs"
    using calls_Read_empty[OF q2] by simp
  have c8': "\<And>buf cs. calls b buf (CallRead # cs) = ReadReply 0 None buf # calls b buf cs"
    using calls_Read_empty[OF assms] by simp
  have A: "calls b buf [CallWrite [], CallCount, CallSize, CallRead, CallCount, CallSize,
                      CallRead, CallCount, CallSize]
         = [WriteReply 0 None, IntReply 1, IntReply 2, ReadReply 0 None buf, IntReply 0, IntReply 0,
            ReadReply 0 None buf, IntReply 0, IntReply 0]"
    by (simp only: calls.simps(1) c1' c2' c3' c4' c5' c6' c7')
  have B: "calls b buf [CallRead] = [ReadReply 0 None buf]"
    by (simp only: calls.simps(1) c8')
  have C: "\<exists>b1 b2. Write b [] = Returns (b1, 0, None) \<and> queue_inv b1 [[]] \<and>
                   live b1 = live b @ [0, 0] \<and>
                   Read b1 buf = Returns (b2, buf, 0, None) \<and> queue_inv b2 [] \<and>
                   live b2 = [] \<and> head b2 = tail b2 \<and> count b2 = count b1 - 1"
    using w q1 l1 r q2 l2 ht c1 c2 by auto
  from A B C show ?thesis by blast
qed

theorem zero_length_packet_witness:
  "queue_inv NewBuffer [] \<and>
   calls NewBuffer [0, 0] [CallWrite [], CallCount, CallSize, CallRead, CallCount, CallSize,
                           CallRead, CallCount, CallSize]
     = [WriteReply 0 None, IntReply 1, IntReply 2, ReadReply 0 None [0, 0], IntReply 0, IntReply 0,
        ReadReply 0 None [0, 0], IntReply 0, IntReply 0] \<and>
   calls NewBuffer [0, 0] [CallRead] = [ReadReply 0 None [0, 0]]"
  using zero_length_packet[OF queue_inv_fresh, of "[0, 0]"] queue_inv_fresh
  by (simp del: calls.simps)

lemma calls_then_size_count:
  assumes "queue_inv b q" "list_all read_succeeded (calls b buf cs)"
  shows "calls b buf (cs @ [CallSize, CallCount])
         = calls b buf cs @ [IntReply (\<Sum>p\<leftarrow>queued q cs. 2 + len p), IntReply (len (queued q cs))]"
  using assms
  supply calls.simps(3,4,5,6) [simp del]
proof (induction cs arbitrary: b buf q)
  case Nil
  then show ?case by (simp add: calls_Size calls_Count)
next
  case (Cons c cs)
  show ?case
  proof (cases c)
    case (CallBuf dst)
    with Cons show ?thesis by simp
  next
    case (CallWrite p)
    show ?thesis
    proof (cases "length p < 65536")
      case True
      from calls_Write_ok[OF Cons.prems(1) True] obtain b' where
        q': "queue_inv b' (q @ [p])"
        and c': "\<And>buf cs. calls b buf (CallWrite p # cs) = WriteReply (len p) None # calls b' buf cs"
        by blast
      from Cons.prems(2) have "list_all read_succeeded (calls b' buf cs)"
        by (simp add: CallWrite c')
      from Cons.IH[OF q' this] True show ?thesis by (simp add: CallWrite c')
    next
      case False
      then have big: "65536 \<le> length p" by simp
      from Cons.prems(2) have "list_all read_succeeded (calls b buf cs)"
        by (simp add: CallWrite calls_Write_too_big[OF big])
      from Cons.IH[OF Cons.prems(1) this] False show ?thesis
        by (simp add: CallWrite calls_Write_too_big[OF big])
    qed
  next
    case CallRead
    show ?thesis
    proof (cases q)
      case Nil
      from Cons.prems(1) have q0: "queue_inv b []" by (simp add: Nil)
      from Cons.prems(2) have "list_all read_succeeded (calls b buf cs)"
        by (simp add: CallRead calls_Read_empty[OF q0])
      from Cons.IH[OF q0 this] show ?thesis
        by (simp add: CallRead Nil calls_Read_empty[OF q0])
    next
      case (Cons p q')
      from Cons.prems(1) have qp: "queue_inv b (p # q')" by (simp add: Cons)
      show ?thesis
      proof (cases "length p \<le> length buf")
        case True
        from calls_Read_ok[OF qp True] obtain b' where
          q1: "queue_inv b' q'"
          and c1: "\<And>cs. calls b buf (CallRead # cs)
             = ReadReply (len p) None (p @ drop (length p) buf) # calls b' (p @ drop (length p) buf) cs"
          by blast
        from \<open>list_all read_succeeded (calls b buf (c # cs))\<close>
        have "list_all read_succeeded (calls b' (p @ drop (length p) buf) cs)"
          by (simp add: CallRead c1)
        from Cons.IH[OF q1 this] show ?thesis by (simp add: CallRead Cons c1)
      next
        case False
        then have sh: "length buf < length p" by simp
        from calls_Read_short[OF qp sh] obtain b' where
          c1: "\<And>cs. calls b buf (CallRead # cs)
             = ReadReply 0 (Some (ErrorString (''short buffer, at least '' @ fmt_d (len p) @ '' is needed''))) buf
               # calls b' buf cs"
          by blast
        from \<open>list_all read_succeeded (calls b buf (c # cs))\<close> show ?thesis
          by (simp add: CallRead c1)
      qed
    qed
  next
    case CallCount
    from Cons.prems(2) have "list_all read_succeeded (calls b buf cs)"
      by (simp add: CallCount calls_Count[OF Cons.prems(1)])
    from Cons.IH[OF Cons.prems(1) this] show ?thesis
      by (simp add: CallCount calls_Count[OF Cons.prems(1)])
  next
    case CallSize
    from Cons.prems(2) have "list_all read_succeeded (calls b buf cs)"
      by (simp add: CallSize calls_Size[OF Cons.prems(1)])
    from Cons.IH[OF Cons.prems(1) this] show ?thesis
      by (simp add: CallSize calls_Size[OF Cons.prems(1)])
  qed
qed

text \<open>
  C5: after any sequence of calls on a fresh Buffer in which every \<^verbatim>\<open>Read\<close> succeeded,
  \<^verbatim>\<open>Size()\<close> returns the sum of \<open>2 + len(payload)\<close> over the queued packets and
  \<^verbatim>\<open>Count()\<close> returns their number.
\<close>

theorem size_count_accounting:
  assumes "list_all read_succeeded (calls NewBuffer buf cs)"
  shows "calls NewBuffer buf (cs @ [CallSize, CallCount])
         = calls NewBuffer buf cs
           @ [IntReply (\<Sum>p\<leftarrow>queued [] cs. 2 + len p), IntReply (len (queued [] cs))]"
  by (rule calls_then_size_count[OF queue_inv_fresh assms])

lemma example_replies:
  "calls NewBuffer [] [CallWrite [1, 2], CallWrite [3], CallBuf [0, 0], CallRead]
   = [WriteReply 2 None, WriteReply 1 None, ReadReply 2 None [1, 2]]"
proof -
  from calls_Write_ok[OF queue_inv_fresh, of "[1, 2]"] obtain b1 where
    q1: "queue_inv b1 [[1, 2]]"
    and c1: "\<And>buf cs. calls NewBuffer buf (CallWrite [1, 2] # cs) = WriteReply 2 None # calls b1 buf cs"
    by auto
  from calls_Write_ok[OF q1, of "[3]"] obtain b2 where
    q2: "queue_inv b2 [[1, 2], [3]]"
    and c2: "\<And>buf cs. calls b1 buf (CallWrite [3] # cs) = WriteReply 1 None # calls b2 buf cs"
    by auto
  from calls_Read_ok[OF q2, of "[0, 0]"] obtain b3 where
    c3: "\<And>cs. calls b2 [0, 0] (CallRead # cs) = ReadReply 2 None [1, 2] # calls b3 [1, 2] cs"
    by auto
  show ?thesis by (simp only: calls.simps(1,2) c1 c2 c3)
qed

theorem size_count_accounting_witness:
  "list_all read_succeeded
     (calls NewBuffer [] [CallWrite [1, 2], CallWrite [3], CallBuf [0, 0], CallRead]) \<and>
   calls NewBuffer [] [CallWrite [1, 2], CallWrite [3], CallBuf [0, 0], CallRead, CallSize, CallCount]
   = [WriteReply 2 None, WriteReply 1 None, ReadReply 2 None [1, 2], IntReply 3, IntReply 1]"
  using size_count_accounting[of "[]" "[CallWrite [1, 2], CallWrite [3], CallBuf [0, 0], CallRead]"]
  by (simp add: example_replies del: calls.simps)

text \<open>
  C7: for every Buffer a caller can obtain on which \<^verbatim>\<open>Count()\<close> returns 0, \<^verbatim>\<open>Read\<close>
  returns \<open>(0, nil)\<close> and leaves the Buffer and the destination as they were; so any
  number of such reads reply \<open>(0, nil)\<close> each, and the calls after them find the same Buffer.
\<close>

theorem empty_read_idempotent:
  assumes "reachable b" "Count b = Returns (b', 0)"
  shows "Read b dst = Returns (b, dst, 0, None) \<and>
         calls b dst (replicate k CallRead @ cs) = replicate k (ReadReply 0 None dst) @ calls b dst cs"
proof -
  from assms(2) have ul: "\<not> locked b" and c0: "count b = 0"
    by (auto simp: Count_def Let_def split: if_splits)
  with reachable_cases[OF assms(1)] obtain ps where q: "queue_inv b ps" by blast
  with c0 have "ps = []" by (simp add: queue_inv_def holds_def)
  with q have q0: "queue_inv b []" by simp
  have "calls b dst (replicate k CallRead @ cs) = replicate k (ReadReply 0 None dst) @ calls b dst cs"
    by (induction k) (simp_all add: Read_empty[OF q0])
  with Read_empty[OF q0] show ?thesis by simp
qed

theorem empty_read_idempotent_witness:
  "reachable NewBuffer \<and> Count NewBuffer = Returns (NewBuffer, 0) \<and>
   Read NewBuffer [0, 0] = Returns (NewBuffer, [0, 0], 0, None) \<and>
   calls NewBuffer [0, 0] [CallRead, CallRead, CallRead, CallCount]
   = [ReadReply 0 None [0, 0], ReadReply 0 None [0, 0], ReadReply 0 None [0, 0], IntReply 0]"
proof -
  have r: "reachable NewBuffer" by (rule reachable.fresh)
  have c: "Count NewBuffer = Returns (NewBuffer, 0)"
    by (simp add: Count_def NewBuffer_def)
  have "calls NewBuffer [0, 0] [CallCount] = [IntReply 0]" by (simp add: c)
  with empty_read_idempotent[OF r c, of "[0, 0]" 3 "[CallCount]"] r c show ?thesis
    by (simp add: numeral_3_eq_3 del: calls.simps)
qed

text \<open>
  C4: \<^verbatim>\<open>Write\<close> fails with \<^verbatim>\<open>ErrPacketTooBig\<close> exactly when the packet has 65536 bytes
  or more. The check comes before the mutex is taken (the call returns even when the
  mutex is held) and before any mutation: the Buffer is returned as it was, so \<open>head\<close>,
  \<open>tail\<close>, \<open>count\<close>, \<open>data\<close>, \<^verbatim>\<open>Count()\<close> and \<^verbatim>\<open>Size()\<close> are unchanged. A packet of
  65535 bytes is accepted.
\<close>

theorem write_too_big_iff:
  "((\<exists>b' n. Write b p = Returns (b', n, Some ErrPacketTooBig)) \<longleftrightarrow> 65536 \<le> length p) \<and>
   (65536 \<le> length p \<longrightarrow> Write b p = Returns (b, 0, Some ErrPacketTooBig)) \<and>
   (queue_inv b ps \<and> length q = 65535 \<longrightarrow> (\<exists>b'. Write b q = Returns (b', 65535, None)))"
proof (intro conjI impI)
  show "(\<exists>b' n. Write b p = Returns (b', n, Some ErrPacketTooBig)) \<longleftrightarrow> 65536 \<le> length p"
  proof
    assume "\<exists>b' n. Write b p = Returns (b', n, Some ErrPacketTooBig)"
    then obtain b' n where w: "Write b p = Returns (b', n, Some ErrPacketTooBig)" by blast
    show "65536 \<le> length p"
    proof (rule ccontr)
      assume "\<not> 65536 \<le> length p"
      then have "length p < 65536" by simp
      from Write_error_None[OF this w] show False by simp
    qed
  next
    assume "65536 \<le> length p"
    then show "\<exists>b' n. Write b p = Returns (b', n, Some ErrPacketTooBig)"
      by (simp add: Write_too_big)
  qed
next
  assume "65536 \<le> length p"
  then show "Write b p = Returns (b, 0, Some ErrPacketTooBig)" by (rule Write_too_big)
next
  assume a: "queue_inv b ps \<and> length q = 65535"
  then have "length q < 65536" by simp
  from Write_ok[OF conjunct1[OF a] this] a show "\<exists>b'. Write b q = Returns (b', 65535, None)"
    by auto
qed

theorem write_too_big_iff_witness:
  "Write NewBuffer (replicate 65536 0) = Returns (NewBuffer, 0, Some ErrPacketTooBig) \<and>
   queue_inv NewBuffer [] \<and>
   calls NewBuffer [] [CallWrite (replicate 65535 0)] = [WriteReply 65535 None]"
  using write_too_big_iff[of NewBuffer "replicate 65536 0" "[]" "replicate 65535 0"] queue_inv_fresh
  by auto

lemma frame_2043: "frame (replicate 2043 0) = 7 # 251 # replicate 2043 0"
  by (simp add: frame_def drop_bit_eq_div)

lemma live_nearly_full: "live nearly_full = 7 # 251 # replicate 2043 0"
  by (simp add: nearly_full_def live_def ring_live_def)

lemma holds_nearly_full: "holds nearly_full [replicate 2043 0]"
  by (simp add: holds_def live_nearly_full frame_2043) (simp add: nearly_full_def indices_ok_def)

lemma grow_loop_fresh_2043:
  "grow_loop (NewBuffer\<lparr>locked := True\<rparr>) 2043
   = Returns (\<lparr>locked = True, data = replicate 2048 0, head = 0, tail = 0, count = 0\<rparr>, None)"
proof -
  let ?b0 = "NewBuffer\<lparr>locked := True\<rparr>"
  let ?b1 = "\<lparr>locked = True, data = replicate 2048 (0::byte), head = 0, tail = 0, count = 0\<rparr>"
  have a0: "\<not> available ?b0 2043" by (simp add: available_def NewBuffer_def)
  have g: "grow ?b0 = Returns (?b1, None)"
    by (simp add: grow_eq NewBuffer_def size_buf_def live_def ring_live_def new_cap_def
        minSize_def cutoffSize_def)
  have a1: "available ?b1 2043" by (simp add: available_def)
  have "grow_loop ?b0 2043 = grow_loop ?b1 2043"
    using a0 g by (simp add: grow_loop.simps[of ?b0])
  also have "\<dots> = Returns (?b1, None)"
    using a1 by (simp add: grow_loop.simps[of ?b1])
  finally show ?thesis .
qed

lemma Write_nearly_full:
  "Write NewBuffer (replicate 2043 0) = Returns (nearly_full\<lparr>locked := False\<rparr>, 2043, None)"
proof -
  let ?b1 = "\<lparr>locked = True, data = replicate 2048 (0::byte), head = 0, tail = 0, count = 0\<rparr>"
  let ?b2 = "\<lparr>locked = True, data = 7 # replicate 2047 (0::byte), head = 0, tail = 1, count = 0\<rparr>"
  let ?b3 = "\<lparr>locked = True, data = 7 # 251 # replicate 2046 (0::byte), head = 0, tail = 2, count = 0\<rparr>"
  have p1: "put_byte ?b1 7 = Some ?b2"
    using put_byte_ring[of ?b1 0 7]
    by (simp add: ring_put_def ring_next_def copy_to_def)
  have p2: "put_byte ?b2 251 = Some ?b3"
    using put_byte_ring[of ?b2 1 251]
    by (simp add: ring_put_def ring_next_def copy_to_def)
  have p3: "put_packet ?b3 (replicate 2043 0) = Some nearly_full"
    using put_packet_ring[of ?b3 2 "replicate 2043 0"]
    by (simp add: ring_put_def ring_next_def copy_to_def nearly_full_def replicate_add[symmetric])
  have h: "(word_of_int (drop_bit 8 2043) :: byte) = 7" "(word_of_int 2043 :: byte) = 251"
    by (simp_all add: drop_bit_eq_div)
  have ul: "\<not> locked NewBuffer" by (simp add: NewBuffer_def)
  have e: "(2043::byte) = 251" by simp
  have p2': "put_byte ?b2 2043 = Some ?b3" unfolding e by (rule p2)
  show ?thesis
    by (simp add: Write_def ul grow_loop_fresh_2043 h p1 p2' p3)
qed

lemma grow_loop_nearly_full:
  "grow_loop nearly_full 1 = Returns (nearly_full\<lparr>data := 7 # 251 # replicate 4094 0\<rparr>, None)"
proof -
  let ?b1 = "nearly_full\<lparr>data := 7 # 251 # replicate 4094 0\<rparr>"
  have a0: "\<not> available nearly_full 1" by (simp add: available_def nearly_full_def)
  have sz: "size_buf nearly_full = 2045" by (simp add: size_buf_def nearly_full_def)
  have nc: "new_cap (len (data nearly_full)) = 4096"
    by (simp add: new_cap_def minSize_def cutoffSize_def nearly_full_def)
  have g: "grow nearly_full = Returns (?b1, None)"
    unfolding grow_eq sz nc live_nearly_full
    by (simp add: nearly_full_def replicate_add[symmetric])
  have a1: "available ?b1 1" by (simp add: available_def nearly_full_def)
  have "grow_loop nearly_full 1 = grow_loop ?b1 1"
    using a0 g by (simp add: grow_loop.simps[of nearly_full])
  also have "\<dots> = Returns (?b1, None)"
    using a1 by (simp add: grow_loop.simps[of ?b1])
  finally show ?thesis .
qed

text \<open>
  C9 as stated lets the growth loop of \<^verbatim>\<open>Write\<close> end once the capacity exceeds
  \<open>len(packet) + 3\<close>. After \<^verbatim>\<open>Write\<close> of a packet of 2043 bytes on a fresh Buffer the
  capacity is 2048; in the \<^verbatim>\<open>Write\<close> of a 1-byte packet that follows, the capacity
  exceeds \<open>1 + 3\<close>, and the loop still takes a growth step, to 4096 bytes, because only
  3 bytes are free.
\<close>

theorem growth_loop_past_threshold:
  "Write NewBuffer (replicate 2043 0) = Returns (nearly_full\<lparr>locked := False\<rparr>, 2043, None) \<and>
   len (data nearly_full) > 1 + 3 \<and>
   grow_loop nearly_full 1 \<noteq> Returns (nearly_full, None) \<and>
   grow_loop nearly_full 1 = Returns (nearly_full\<lparr>data := 7 # 251 # replicate 4094 0\<rparr>, None)"
  unfolding grow_loop_nearly_full
  by (simp add: Write_nearly_full) (simp add: nearly_full_def)

text \<open>
  C9 (as amended): \<^verbatim>\<open>Write\<close> of a packet shorter than 65536 bytes, on a Buffer whose
  mutex is free, returns the packet's length and no error. Each growth step returns no
  error and strictly increases the capacity; the growth loop always ends, in a state
  with the same live bytes where \<open>Size() + len(packet) + 3\<close> fits the capacity, and it
  takes no growth step exactly when that already holds at the start.
\<close>

theorem write_succeeds:
  assumes "queue_inv b ps" "length p < 65536" "indices_ok b0"
  shows "(\<exists>b'. Write b p = Returns (b', len p, None)) \<and>
         (\<exists>b1. grow b0 = Returns (b1, None) \<and> len (data b0) < len (data b1)) \<and>
         (\<exists>b2. grow_loop b0 sz = Returns (b2, None) \<and> size_buf b2 = size_buf b0 \<and>
               size_buf b2 + sz + 3 \<le> len (data b2)) \<and>
         (grow_loop b0 sz = Returns (b0, None) \<longleftrightarrow> size_buf b0 + sz + 3 \<le> len (data b0))"
proof (intro conjI)
  from Write_ok[OF assms(1,2)] show "\<exists>b'. Write b p = Returns (b', len p, None)" by blast
next
  from assms(3) obtain b1 where "grow b0 = Returns (b1, None)"
    "len (data b1) = new_cap (len (data b0))" by (rule grow_indices_ok)
  moreover have "len (data b0) < new_cap (len (data b0))" by (rule new_cap_gt) simp
  ultimately show "\<exists>b1. grow b0 = Returns (b1, None) \<and> len (data b0) < len (data b1)" by simp
next
  from grow_loop_ok[OF assms(3), of sz] obtain b2 where
    g: "grow_loop b0 sz = Returns (b2, None)" and io: "indices_ok b2"
    and lv: "live b2 = live b0" and av: "available b2 sz" by blast
  have "size_buf b2 = size_buf b0" using len_live[OF io] len_live[OF assms(3)] lv by simp
  moreover have "size_buf b2 + sz + 3 \<le> len (data b2)" using av available_iff[OF io] by simp
  ultimately show "\<exists>b2. grow_loop b0 sz = Returns (b2, None) \<and> size_buf b2 = size_buf b0 \<and>
               size_buf b2 + sz + 3 \<le> len (data b2)" using g by blast
next
  show "grow_loop b0 sz = Returns (b0, None) \<longleftrightarrow> size_buf b0 + sz + 3 \<le> len (data b0)"
  proof
    assume e: "grow_loop b0 sz = Returns (b0, None)"
    from grow_loop_ok[OF assms(3), of sz] e have "available b0 sz" by auto
    then show "size_buf b0 + sz + 3 \<le> len (data b0)" using available_iff[OF assms(3)] by simp
  next
    assume "size_buf b0 + sz + 3 \<le> len (data b0)"
    then have "available b0 sz" using available_iff[OF assms(3)] by simp
    then show "grow_loop b0 sz = Returns (b0, None)" by (simp add: grow_loop.simps[of b0])
  qed
qed

theorem write_succeeds_witness:
  "queue_inv NewBuffer [] \<and> indices_ok nearly_full \<and>
   calls NewBuffer [] [CallWrite [7]] = [WriteReply 1 None] \<and>
   (\<exists>b1. grow nearly_full = Returns (b1, None) \<and> 2048 < len (data b1)) \<and>
   (\<exists>b2. grow_loop nearly_full 1 = Returns (b2, None) \<and> size_buf b2 = 2045 \<and>
         2049 \<le> len (data b2)) \<and>
   grow_loop nearly_full 1 \<noteq> Returns (nearly_full, None)"
proof -
  have io: "indices_ok nearly_full" by (simp add: indices_ok_def nearly_full_def)
  have sz: "size_buf nearly_full = 2045" by (simp add: size_buf_def nearly_full_def)
  have l: "len (data nearly_full) = 2048" by (simp add: nearly_full_def)
  from write_succeeds[OF queue_inv_fresh _ io, of "[7]" 1] queue_inv_fresh io show ?thesis
    unfolding sz l by auto
qed

text \<open>
  C6: one growth step, on a Buffer whose cursors are inside its array, returns no error;
  the new capacity is twice the old one when that is below 128 KiB and \<open>5 * old / 4\<close>
  (integer division) otherwise, and at least 2048; the live bytes, contiguous or wrapped,
  are at offset 0 of the new array, \<open>head\<close> is 0, \<open>tail\<close> is the number of live bytes,
  \<open>count\<close> is unchanged, and the Buffer holds the same packets in the same order.
\<close>

theorem grow_step:
  assumes "indices_ok b"
  shows "\<exists>b'. grow b = Returns (b', None) \<and>
           len (data b') = max 2048 (if len (data b) < 128 * 1024 then 2 * len (data b)
                                     else 5 * len (data b) div 4) \<and>
           head b' = 0 \<and> tail b' = len (live b) \<and>
           take (length (live b)) (data b') = live b \<and>
           count b' = count b \<and> live b' = live b \<and>
           (holds b ps \<longrightarrow> holds b' ps)"
proof -
  from assms obtain b' where g: "grow b = Returns (b', None)" and io: "indices_ok b'"
    and lv: "live b' = live b" and cap: "len (data b') = new_cap (len (data b))"
    and h: "head b' = 0" and t: "tail b' = size_buf b" and c: "count b' = count b"
    and tk: "take (nat (size_buf b)) (data b') = live b"
    by (rule grow_indices_ok)
  have l: "len (live b) = size_buf b" by (rule len_live[OF assms])
  have nl: "nat (size_buf b) = length (live b)" using l by linarith
  have "holds b ps \<longrightarrow> holds b' ps" using io lv c by (simp add: holds_def)
  with g cap h t c lv tk l nl show ?thesis
    by (auto simp: new_cap_def minSize_def cutoffSize_def)
qed

theorem grow_step_witness:
  "indices_ok \<lparr>locked = True, data = [0, 1, 9, 0, 0, 0, 1, 7], head = 5, tail = 3, count = 2\<rparr> \<and>
   holds \<lparr>locked = True, data = [0, 1, 9, 0, 0, 0, 1, 7], head = 5, tail = 3, count = 2\<rparr>
     [[7], [9]] \<and>
   (\<exists>b'. grow \<lparr>locked = True, data = [0, 1, 9, 0, 0, 0, 1, 7], head = 5, tail = 3, count = 2\<rparr>
           = Returns (b', None) \<and>
         len (data b') = 2048 \<and> head b' = 0 \<and> tail b' = 6 \<and>
         take 6 (data b') = [0, 1, 7, 0, 1, 9] \<and> count b' = 2 \<and>
         live b' = [0, 1, 7, 0, 1, 9] \<and> holds b' [[7], [9]])"
proof -
  let ?w = "\<lparr>locked = True, data = [0, 1, 9, 0, 0, 0, 1, 7], head = 5, tail = 3, count = 2\<rparr>"
  have io: "indices_ok ?w" by (simp add: indices_ok_def)
  have lv: "live ?w = [0, 1, 7, 0, 1, 9]" by (simp add: live_def ring_live_def)
  have h: "holds ?w [[7], [9]]" by (simp add: holds_def io lv frame_def)
  have six: "(6::nat) = Suc (Suc (Suc (Suc (Suc (Suc 0)))))" by simp
  from grow_step[OF io, of "[[7], [9]]"] io h show ?thesis
    unfolding lv by (auto simp: six)
qed

lemma grow_loop_fresh:
  assumes "- 3 < sz" "sz + 3 \<le> 2048"
  shows "grow_loop (NewBuffer\<lparr>locked := True\<rparr>) sz
   = Returns (\<lparr>locked = True, data = replicate 2048 0, head = 0, tail = 0, count = 0\<rparr>, None)"
proof -
  let ?b0 = "NewBuffer\<lparr>locked := True\<rparr>"
  let ?b1 = "\<lparr>locked = True, data = replicate 2048 (0::byte), head = 0, tail = 0, count = 0\<rparr>"
  have a0: "\<not> available ?b0 sz" using assms(1) by (simp add: available_def NewBuffer_def)
  have g: "grow ?b0 = Returns (?b1, None)"
    by (simp add: grow_eq NewBuffer_def size_buf_def live_def ring_live_def new_cap_def
        minSize_def cutoffSize_def)
  have a1: "available ?b1 sz" using assms(2) by (simp add: available_def)
  have "grow_loop ?b0 sz = grow_loop ?b1 sz"
    using a0 g by (simp add: grow_loop.simps[of ?b0])
  also have "\<dots> = Returns (?b1, None)"
    using a1 by (simp add: grow_loop.simps[of ?b1])
  finally show ?thesis .
qed

lemma Write_one_packet: "Write NewBuffer [1, 2, 3] = Returns (one_packet, 3, None)"
proof -
  let ?b1 = "\<lparr>locked = True, data = replicate 2048 (0::byte), head = 0, tail = 0, count = 0\<rparr>"
  let ?b2 = "\<lparr>locked = True, data = 0 # replicate 2047 (0::byte), head = 0, tail = 1, count = 0\<rparr>"
  let ?b3 = "\<lparr>locked = True, data = 0 # 3 # replicate 2046 (0::byte), head = 0, tail = 2, count = 0\<rparr>"
  have g: "grow_loop (NewBuffer\<lparr>locked := True\<rparr>) 3 = Returns (?b1, None)"
    by (rule grow_loop_fresh) simp_all
  have p1: "put_byte ?b1 0 = Some ?b2"
    using put_byte_ring[of ?b1 0 0]
    by (simp add: ring_put_def ring_next_def copy_to_def)
  have p2: "put_byte ?b2 3 = Some ?b3"
    using put_byte_ring[of ?b2 1 3]
    by (simp add: ring_put_def ring_next_def copy_to_def)
  have p3: "put_packet ?b3 [1, 2, 3] = Some (one_packet\<lparr>locked := True\<rparr>)"
    using put_packet_ring[of ?b3 2 "[1, 2, 3]"]
    by (simp add: ring_put_def ring_next_def copy_to_def one_packet_def)
  have ul: "\<not> locked NewBuffer" by (simp add: NewBuffer_def)
  have u: "one_packet\<lparr>locked := True\<rparr>\<lparr>locked := False\<rparr> = one_packet"
    by (simp add: one_packet_def)
  show ?thesis
    by (simp add: Write_def ul g drop_bit_eq_div p1 p2 p3 u)
qed

lemma Read_one_packet_short:
  "Read one_packet [0, 0]
   = Returns (one_packet\<lparr>locked := True, head := 2\<rparr>, [0, 0], 0,
              Some (ErrorString ''short buffer, at least 3 is needed''))"
  by (simp add: Read_def get_byte_def Let_def one_packet_def fmt_d_3)

text \<open>
  C2: a \<^verbatim>\<open>Read\<close> into a destination shorter than the oldest record fails with the
  short-buffer error that names the record's length. The claim continues: nothing is
  mutated and a second \<^verbatim>\<open>Read\<close> with a large enough destination returns the record.
  The code returns from the short-buffer branch (line 154) with \<open>head\<close> already moved
  past the two length bytes and without unlocking the mutex. After \<^verbatim>\<open>Write([1,2,3])\<close>
  on a fresh Buffer, the \<^verbatim>\<open>Read\<close> into 2 bytes fails and leaves \<open>head\<close> at 2 and the
  mutex held, and the \<^verbatim>\<open>Read\<close> into 4 bytes that follows never returns.
\<close>

theorem short_read_blocks_retry:
  "Write NewBuffer [1, 2, 3] = Returns (one_packet, 3, None) \<and>
   Read one_packet [0, 0]
     = Returns (one_packet\<lparr>locked := True, head := 2\<rparr>, [0, 0], 0,
                Some (ErrorString ''short buffer, at least 3 is needed'')) \<and>
   Read (one_packet\<lparr>locked := True, head := 2\<rparr>) [0, 0, 0, 0] = Blocks \<and>
   calls NewBuffer []
     [CallWrite [1, 2, 3], CallBuf [0, 0], CallRead, CallBuf [0, 0, 0, 0], CallRead]
   = [WriteReply 3 None,
      ReadReply 0 (Some (ErrorString ''short buffer, at least 3 is needed'')) [0, 0],
      Blocked]"
  using Write_one_packet Read_one_packet_short short_read_replies
  by (simp add: Read_locked del: calls.simps)

lemma int64_id: "- (2 ^ 63) \<le> i \<Longrightarrow> i < 2 ^ 63 \<Longrightarrow> int64 i = i"
  by (simp add: int64_def)

lemma available_int64_exact:
  assumes "0 \<le> head b" "head b < 2 ^ 63" "0 \<le> tail b" "tail b < 2 ^ 63"
    and "len (data b) < 2 ^ 63" "- (2 ^ 63) \<le> s" "s + 3 < 2 ^ 63"
  shows "available_int64 b s = available b s"
proof -
  have d: "int64 (head b - tail b) = head b - tail b"
    using assms by (intro int64_id) simp_all
  have a: "head b - tail b \<le> 0 \<Longrightarrow>
           int64 (head b - tail b + len (data b)) = head b - tail b + len (data b)"
    using assms by (intro int64_id) simp_all
  have s2: "int64 (s + 2) = s + 2" using assms by (intro int64_id) simp_all
  have s3: "int64 (s + 2 + 1) = s + 2 + 1" using assms by (intro int64_id) simp_all
  show ?thesis
    unfolding available_int64_def available_def Let_def d s2 s3 using a by simp
qed

text \<open>
  C8 as stated covers every state and every requested size. With 64-bit integers the
  sum \<open>s + 2 + 1\<close> wraps around for the largest sizes: on a fresh Buffer, which has no
  free byte, \<^verbatim>\<open>available(9223372036854775807)\<close> returns true. The difference
  \<open>head - tail\<close> wraps in the same way when a cursor is far below zero.
\<close>

theorem available_wraps_around:
  "available_int64 NewBuffer 9223372036854775807 \<and>
   head NewBuffer - tail NewBuffer + len (data NewBuffer) = 0 \<and>
   (9223372036854775807 :: int) + 2 + 1 > 0 \<and>
   available_int64 \<lparr>locked = False, data = [], head = - 9223372036854775808, tail = 1, count = 0\<rparr> 0 \<and>
   (0 :: int) + 2 + 1 > - 9223372036854775808 - 1 + len ([] :: byte list)"
  by (simp add: available_int64_def int64_def NewBuffer_def)

text \<open>
  C8 (as amended): for every Buffer whose cursors are not negative and every requested size
  \<open>s\<close> with \<open>s + 3\<close> at most the largest \<^verbatim>\<open>int\<close>, \<^verbatim>\<open>available(s)\<close> takes \<open>head - tail\<close>
  as the number of free bytes, adds the capacity when that difference is at most zero, and
  returns true exactly when \<open>s + 2 + 1\<close> is not greater than the result. When the cursors
  are inside the array the result is the capacity less the live bytes, so the record and
  the one reserved byte fit. Nothing wraps there, so it is also what \<open>available\<close> computes.
\<close>

theorem available_free_bytes:
  assumes "0 \<le> head b" "head b < 2 ^ 63" "0 \<le> tail b" "tail b < 2 ^ 63"
    and "len (data b) < 2 ^ 63" "- (2 ^ 63) \<le> s" "s + 3 < 2 ^ 63"
  shows "(available_int64 b s \<longleftrightarrow>
            \<not> (s + 2 + 1 >
                 (if head b - tail b \<le> 0 then head b - tail b + len (data b)
                  else head b - tail b))) \<and>
         (indices_ok b \<longrightarrow>
            (if head b - tail b \<le> 0 then head b - tail b + len (data b) else head b - tail b)
            = len (data b) - size_buf b) \<and>
         available_int64 b s = available b s"
proof (intro conjI impI)
  show e: "available_int64 b s = available b s" by (rule available_int64_exact[OF assms])
  show "available_int64 b s \<longleftrightarrow>
            \<not> (s + 2 + 1 >
                 (if head b - tail b \<le> 0 then head b - tail b + len (data b)
                  else head b - tail b))"
    unfolding e by (simp add: available_def Let_def)
  assume "indices_ok b"
  then show "(if head b - tail b \<le> 0 then head b - tail b + len (data b) else head b - tail b)
            = len (data b) - size_buf b"
    by (auto simp: indices_ok_def size_buf_def Let_def)
qed

theorem available_free_bytes_witness:
  "0 \<le> head one_packet \<and> head one_packet < 2 ^ 63 \<and> 0 \<le> tail one_packet \<and>
   tail one_packet < 2 ^ 63 \<and> len (data one_packet) < 2 ^ 63 \<and>
   - (2 ^ 63) \<le> (2043 :: int) \<and> (2043 :: int) + 3 < 2 ^ 63 \<and> indices_ok one_packet \<and>
   \<not> available_int64 one_packet 2043 \<and> available_int64 one_packet 2040 \<and>
   len (data one_packet) - size_buf one_packet = 2043"
proof -
  have h: "0 \<le> head one_packet" "head one_packet < 2 ^ 63" "0 \<le> tail one_packet"
    "tail one_packet < 2 ^ 63" "len (data one_packet) < 2 ^ 63"
    by (simp_all add: one_packet_def)
  have io: "indices_ok one_packet" by (simp add: indices_ok_def one_packet_def)
  have v: "head one_packet - tail one_packet = - 5" "len (data one_packet) = 2048"
    by (simp_all add: one_packet_def)
  from available_free_bytes[OF h, of 2043] available_free_bytes[OF h, of 2040] h io
  show ?thesis unfolding v by simp
qed

end
